theory Spec2Isabelle
  imports Main "HOL-Library.Monad_Syntax"
begin

section \<open>Interval keys\<close>

text \<open>
  \<^verbatim>\<open>IntervalKey\<close> of the source: two \<^verbatim>\<open>int64\<close> bounds and a string payload. The bounds
  are only ever compared and copied, never used in arithmetic, so they are modelled as
  integers.
\<close>

record IntervalKey =
  Start :: int
  End :: int
  Key :: string

text \<open>
  A call of a Go function either returns its value or panics with a message.
\<close>

datatype 'a outcome = Return 'a | Panic string

definition NewIntervalKey :: "int \<Rightarrow> int \<Rightarrow> string \<Rightarrow> IntervalKey outcome" where
  "NewIntervalKey start end key =
     (if start < 0 \<or> end < 0 \<or> start > end
      then Panic ''interval Start and End must be a positive number and Start must be < End''
      else Return \<lparr>Start = start, End = end, Key = key\<rparr>)"

definition equalInterval :: "IntervalKey \<Rightarrow> IntervalKey \<Rightarrow> bool" where
  "equalInterval i i2 = (Start i = Start i2 \<and> End i = End i2)"

definition less_key :: "IntervalKey \<Rightarrow> IntervalKey \<Rightarrow> bool" where
  "less_key a b =
     (if Start a < Start b then True
      else if Start a > Start b then False
      else End a < End b)"

section \<open>Nodes and the heap\<close>

text \<open>
  A \<^verbatim>\<open>*Node\<close> is \<open>None\<close> (nil) or the address of a node; the heap maps every address
  to the node stored there. The slice \<^verbatim>\<open>levels\<close> is its visible part \<open>levels\<close>
  (length \<^verbatim>\<open>len\<close>) followed by the rest of its backing array \<open>spare\<close>
  (so \<^verbatim>\<open>cap\<close> is the sum of the two lengths).
\<close>

type_synonym addr = nat

record nodeLevel =
  next_node :: "addr option"
  span :: int

record Node =
  intervalKey :: IntervalKey
  levels :: "nodeLevel list"
  spare :: "nodeLevel list"

type_synonym heap = "addr \<Rightarrow> Node"

definition zeroKey :: IntervalKey where
  "zeroKey = \<lparr>Start = 0, End = 0, Key = []\<rparr>"

definition zeroLevel :: nodeLevel where
  "zeroLevel = \<lparr>next_node = None, span = 0\<rparr>"

definition emptyNode :: Node where
  "emptyNode = \<lparr>intervalKey = zeroKey, levels = [], spare = []\<rparr>"

definition reset :: "Node \<Rightarrow> Node" where
  "reset n = \<lparr>intervalKey = zeroKey, levels = [], spare = levels n @ spare n\<rparr>"

text \<open>
  Reading and writing \<^verbatim>\<open>n.levels[i]\<close>: an index outside the slice panics, which is
  the value \<open>None\<close> of the model.
\<close>

definition level_at :: "heap \<Rightarrow> addr \<Rightarrow> nat \<Rightarrow> nodeLevel option" where
  "level_at h a i = (if i < length (levels (h a)) then Some (levels (h a) ! i) else None)"

definition with_next :: "heap \<Rightarrow> addr \<Rightarrow> nat \<Rightarrow> addr option \<Rightarrow> heap" where
  "with_next h a i p =
     h(a := (h a)\<lparr>levels := (levels (h a))[i := (levels (h a) ! i)\<lparr>next_node := p\<rparr>]\<rparr>)"

definition with_span :: "heap \<Rightarrow> addr \<Rightarrow> nat \<Rightarrow> int \<Rightarrow> heap" where
  "with_span h a i v =
     h(a := (h a)\<lparr>levels := (levels (h a))[i := (levels (h a) ! i)\<lparr>span := v\<rparr>]\<rparr>)"

definition set_next :: "heap \<Rightarrow> addr \<Rightarrow> nat \<Rightarrow> addr option \<Rightarrow> heap option" where
  "set_next h a i p = (if i < length (levels (h a)) then Some (with_next h a i p) else None)"

definition set_span :: "heap \<Rightarrow> addr \<Rightarrow> nat \<Rightarrow> int \<Rightarrow> heap option" where
  "set_span h a i v = (if i < length (levels (h a)) then Some (with_span h a i v) else None)"

definition nth_opt :: "'a list \<Rightarrow> nat \<Rightarrow> 'a option" where
  "nth_opt xs i = (if i < length xs then Some (xs ! i) else None)"

definition upd_opt :: "'a list \<Rightarrow> nat \<Rightarrow> 'a \<Rightarrow> 'a list option" where
  "upd_opt xs i v = (if i < length xs then Some (xs[i := v]) else None)"

section \<open>The list\<close>

definition MaxLevel :: nat where
  "MaxLevel = 32"

definition MaxSearchLevel :: nat where
  "MaxSearchLevel = 10"

definition levelThreshold :: int where
  "levelThreshold = 536870912"

text \<open>
  \<^verbatim>\<open>SkipList\<close> with the part of the Go heap it works on. \<open>maxLevel\<close> is only ever
  assigned 1, a loop index or its own successor, so it is a natural number;
  \<open>length_sl\<close> is the field \<^verbatim>\<open>length\<close>. \<open>PCG\<close> is the random source, given as the
  stream of values its successive \<^verbatim>\<open>Int32\<close> calls return. \<open>pool\<close> holds the nodes
  put back into the node pool (most recent first), \<open>fresh\<close> is the next unused address.
\<close>

record SkipList =
  head :: addr
  maxLevel :: nat
  length_sl :: int
  pool :: "addr list"
  PCG :: "nat \<Rightarrow> int"
  nodes :: heap
  fresh :: addr

record QueryParam =
  Offset :: int
  Limit :: int

definition pool_get :: "SkipList \<Rightarrow> addr \<times> SkipList" where
  "pool_get s =
     (case pool s of
        a # rest \<Rightarrow> (a, s\<lparr>pool := rest\<rparr>)
      | [] \<Rightarrow> (fresh s, s\<lparr>nodes := (nodes s)(fresh s := emptyNode), fresh := Suc (fresh s)\<rparr>))"

definition pool_put :: "addr \<Rightarrow> SkipList \<Rightarrow> SkipList" where
  "pool_put a s = s\<lparr>nodes := (nodes s)(a := reset (nodes s a)), pool := a # pool s\<rparr>"

definition newNode :: "nat \<Rightarrow> IntervalKey \<Rightarrow> SkipList \<Rightarrow> addr \<times> SkipList" where
  "newNode level ik s =
     (let (a, s1) = pool_get s;
          n = nodes s1 a;
          backing = levels n @ spare n;
          n1 = (if length backing \<ge> level
                then n\<lparr>levels := take level backing, spare := drop level backing\<rparr>
                else n\<lparr>levels := replicate level zeroLevel, spare := []\<rparr>)
      in (a, s1\<lparr>nodes := (nodes s1)(a := n1\<lparr>intervalKey := ik\<rparr>)\<rparr>))"

definition New :: "(nat \<Rightarrow> int) \<Rightarrow> SkipList" where
  "New g =
     (let s0 = \<lparr>head = 0, maxLevel = 1, length_sl = 0, pool = [], PCG = g,
                nodes = (\<lambda>_. emptyNode), fresh = 0\<rparr>;
          (a, s1) = newNode MaxLevel zeroKey s0
      in s1\<lparr>head := a\<rparr>)"

function randomLevel_loop :: "(nat \<Rightarrow> int) \<Rightarrow> nat \<Rightarrow> nat \<times> (nat \<Rightarrow> int)" where
  "randomLevel_loop g level =
     (if g 0 < levelThreshold \<and> level < MaxLevel
      then randomLevel_loop (\<lambda>n. g (Suc n)) (level + 1)
      else (level, (\<lambda>n. g (Suc n))))"
  by pat_completeness auto
termination
  by (relation "measure (\<lambda>(g, level). MaxLevel - level)") auto

definition randomLevel :: "SkipList \<Rightarrow> nat \<times> SkipList" where
  "randomLevel s = (let (level, g) = randomLevel_loop (PCG s) 1 in (level, s\<lparr>PCG := g\<rparr>))"

subsection \<open>Insert\<close>

partial_function (option) advance_dist ::
  "heap \<Rightarrow> IntervalKey \<Rightarrow> nat \<Rightarrow> addr \<Rightarrow> int \<Rightarrow> (addr \<times> int) option" where
  [code]: "advance_dist h k i n d =
     Option.bind (level_at h n i) (\<lambda>l.
       case next_node l of
         None \<Rightarrow> Some (n, d)
       | Some m \<Rightarrow>
           if less_key (intervalKey (h m)) k
           then advance_dist h k i m (d + span l)
           else Some (n, d))"

fun insert_search ::
  "heap \<Rightarrow> IntervalKey \<Rightarrow> nat \<Rightarrow> addr \<Rightarrow> int list \<Rightarrow> addr option list \<Rightarrow>
     (addr \<times> int list \<times> addr option list) option" where
  "insert_search h k 0 n dist nodePath = Some (n, dist, nodePath)"
| "insert_search h k (Suc i) n dist nodePath =
     (if i < length dist \<and> i < length nodePath
      then
        let dist1 = (if int i < int (length dist) - 1 then dist[i := dist ! (i + 1)] else dist)
        in Option.bind (advance_dist h k i n (dist1 ! i)) (\<lambda>(n', d).
             insert_search h k i n' (dist1[i := d]) (nodePath[i := Some n']))
      else None)"

definition link_level ::
  "nat \<Rightarrow> addr \<Rightarrow> nat \<Rightarrow> int list \<Rightarrow> addr \<Rightarrow> heap \<Rightarrow> heap option" where
  "link_level i n rLevel dist p h =
     (if i < rLevel
      then do {
        lp \<leftarrow> level_at h p i;
        h1 \<leftarrow> set_next h n i (next_node lp);
        lp1 \<leftarrow> level_at h1 p i;
        h2 \<leftarrow> set_span h1 n i (span lp1 - (dist ! 0 - dist ! i));
        h3 \<leftarrow> set_next h2 p i (Some n);
        set_span h3 p i ((dist ! 0 - dist ! i) + 1)
      }
      else do {
        lp \<leftarrow> level_at h p i;
        set_span h p i (span lp + 1)
      })"

definition grow_level ::
  "nat \<Rightarrow> addr option list \<Rightarrow> SkipList \<Rightarrow> (addr option list \<times> SkipList) option" where
  "grow_level i nodePath s =
     (if i \<ge> maxLevel s
      then do {
        np \<leftarrow> upd_opt nodePath i (Some (head s));
        h \<leftarrow> set_span (nodes s) (head s) i (length_sl s);
        Some (np, s\<lparr>nodes := h, maxLevel := maxLevel s + 1\<rparr>)
      }
      else Some (nodePath, s))"

fun insert_link ::
  "nat \<Rightarrow> nat \<Rightarrow> addr \<Rightarrow> nat \<Rightarrow> int list \<Rightarrow> addr option list \<Rightarrow> SkipList \<Rightarrow> SkipList option" where
  "insert_link 0 i n rLevel dist nodePath s = Some s"
| "insert_link (Suc c) i n rLevel dist nodePath s =
     do {
       (nodePath1, s1) \<leftarrow> grow_level i nodePath s;
       pp \<leftarrow> nth_opt nodePath1 i;
       p \<leftarrow> pp;
       h2 \<leftarrow> link_level i n rLevel dist p (nodes s1);
       insert_link c (i + 1) n rLevel dist nodePath1 (s1\<lparr>nodes := h2\<rparr>)
     }"

definition Insert :: "IntervalKey \<Rightarrow> SkipList \<Rightarrow> (IntervalKey option \<times> SkipList) option" where
  "Insert ik s =
     do {
       (n, dist, nodePath) \<leftarrow>
         insert_search (nodes s) ik (maxLevel s) (head s)
           (replicate MaxLevel 0) (replicate MaxLevel None);
       l0 \<leftarrow> level_at (nodes s) n 0;
       if (case next_node l0 of
             None \<Rightarrow> False
           | Some xn \<Rightarrow> equalInterval (intervalKey (nodes s xn)) ik)
       then do {
         xn \<leftarrow> next_node l0;
         Some (Some (intervalKey (nodes s xn)),
               s\<lparr>nodes := (nodes s)(xn := (nodes s xn)\<lparr>intervalKey := ik\<rparr>)\<rparr>)
       }
       else do {
         let (rLevel, s1) = randomLevel s;
         let (n1, s2) = newNode rLevel ik s1;
         s3 \<leftarrow> insert_link (max (maxLevel s2) rLevel) 0 n1 rLevel dist nodePath s2;
         Some (None, s3\<lparr>length_sl := length_sl s3 + 1\<rparr>)
       }
     }"

subsection \<open>Delete\<close>

partial_function (option) advance ::
  "heap \<Rightarrow> IntervalKey \<Rightarrow> nat \<Rightarrow> addr \<Rightarrow> addr option" where
  [code]: "advance h k i n =
     Option.bind (level_at h n i) (\<lambda>l.
       case next_node l of
         None \<Rightarrow> Some n
       | Some m \<Rightarrow>
           if less_key (intervalKey (h m)) k
           then advance h k i m
           else Some n)"

fun delete_search ::
  "heap \<Rightarrow> IntervalKey \<Rightarrow> nat \<Rightarrow> addr \<Rightarrow> addr option list \<Rightarrow>
     (addr \<times> addr option list) option" where
  "delete_search h k 0 n nodePath = Some (n, nodePath)"
| "delete_search h k (Suc i) n nodePath =
     Option.bind (advance h k i n) (\<lambda>n'.
       Option.bind (upd_opt nodePath i (Some n')) (\<lambda>np.
         delete_search h k i n' np))"

definition unlink_level :: "nat \<Rightarrow> addr \<Rightarrow> addr \<Rightarrow> SkipList \<Rightarrow> SkipList option" where
  "unlink_level i n p s =
     do {
       lp \<leftarrow> level_at (nodes s) p i;
       if i < length (levels (nodes s n)) \<and> next_node lp = Some n
       then do {
         ln \<leftarrow> level_at (nodes s) n i;
         h1 \<leftarrow> set_next (nodes s) p i (next_node ln);
         lp1 \<leftarrow> level_at h1 p i;
         ln1 \<leftarrow> level_at h1 n i;
         h2 \<leftarrow> set_span h1 p i (span lp1 + (span ln1 - 1));
         if maxLevel s > i \<and> maxLevel s > 1
         then do {
           lh \<leftarrow> level_at h2 (head s) i;
           Some (if next_node lh = None
                 then s\<lparr>nodes := h2, maxLevel := i\<rparr>
                 else s\<lparr>nodes := h2\<rparr>)
         }
         else Some (s\<lparr>nodes := h2\<rparr>)
       }
       else do {
         h1 \<leftarrow> set_span (nodes s) p i (span lp - 1);
         Some (s\<lparr>nodes := h1\<rparr>)
       }
     }"

fun delete_unlink ::
  "nat \<Rightarrow> nat \<Rightarrow> addr \<Rightarrow> addr option list \<Rightarrow> SkipList \<Rightarrow> SkipList option" where
  "delete_unlink 0 i n nodePath s = Some s"
| "delete_unlink (Suc c) i n nodePath s =
     do {
       pp \<leftarrow> nth_opt nodePath i;
       p \<leftarrow> pp;
       s1 \<leftarrow> unlink_level i n p s;
       delete_unlink c (i + 1) n nodePath s1
     }"

definition Delete :: "IntervalKey \<Rightarrow> SkipList \<Rightarrow> (IntervalKey option \<times> SkipList) option" where
  "Delete interval s =
     do {
       (n0, nodePath) \<leftarrow>
         delete_search (nodes s) interval (maxLevel s) (head s) (replicate MaxLevel None);
       l0 \<leftarrow> level_at (nodes s) n0 0;
       (case next_node l0 of
          None \<Rightarrow> Some (None, s)
        | Some n \<Rightarrow>
            if \<not> equalInterval (intervalKey (nodes s n)) interval
            then Some (None, s)
            else do {
              s1 \<leftarrow> delete_unlink (maxLevel s) 0 n nodePath s;
              let k = intervalKey (nodes s1 n);
              let s2 = pool_put n s1;
              Some (Some k, s2\<lparr>length_sl := length_sl s2 - 1\<rparr>)
            })
     }"

subsection \<open>Queries\<close>

definition maxSearchLevel :: "SkipList \<Rightarrow> int" where
  "maxSearchLevel s =
     (let m = int (maxLevel s) - 1
      in if m \<ge> int MaxSearchLevel then int MaxSearchLevel - 1 else m)"

text \<open>
  The loop \<^verbatim>\<open>for i := sl.maxSearchLevel(); i >= 0; i--\<close> of the three queries; the
  first argument counts the levels still to visit.
\<close>

fun descend :: "heap \<Rightarrow> IntervalKey \<Rightarrow> nat \<Rightarrow> addr \<Rightarrow> addr option" where
  "descend h k 0 n = Some n"
| "descend h k (Suc i) n = Option.bind (advance h k i n) (descend h k i)"

partial_function (option) overlaps_scan ::
  "heap \<Rightarrow> IntervalKey \<Rightarrow> QueryParam \<Rightarrow> addr option \<Rightarrow> int \<Rightarrow> IntervalKey list \<Rightarrow>
     IntervalKey list option" where
  [code]: "overlaps_scan h interval qParam p count result =
     (case p of
        None \<Rightarrow> Some result
      | Some n \<Rightarrow>
          if Start (intervalKey (h n)) \<le> End interval
          then
            if End (intervalKey (h n)) \<ge> Start interval
            then
              if count \<ge> Offset qParam
              then
                if Limit qParam \<noteq> 0 \<and> int (length (result @ [intervalKey (h n)])) \<ge> Limit qParam
                then Some (result @ [intervalKey (h n)])
                else Option.bind (level_at h n 0) (\<lambda>l.
                       overlaps_scan h interval qParam (next_node l) (count + 1)
                         (result @ [intervalKey (h n)]))
              else Option.bind (level_at h n 0) (\<lambda>l.
                     overlaps_scan h interval qParam (next_node l) (count + 1) result)
            else Option.bind (level_at h n 0) (\<lambda>l.
                   overlaps_scan h interval qParam (next_node l) count result)
          else Some result)"

definition Overlaps :: "SkipList \<Rightarrow> IntervalKey \<Rightarrow> QueryParam \<Rightarrow> IntervalKey list option" where
  "Overlaps s interval qParam =
     do {
       n \<leftarrow> descend (nodes s) interval (nat (maxSearchLevel s + 1)) (head s);
       overlaps_scan (nodes s) interval qParam (Some n) 0 []
     }"

definition Get :: "SkipList \<Rightarrow> IntervalKey \<Rightarrow> IntervalKey option option" where
  "Get s interval =
     do {
       n0 \<leftarrow> descend (nodes s) interval (nat (maxSearchLevel s + 1)) (head s);
       l0 \<leftarrow> level_at (nodes s) n0 0;
       (case next_node l0 of
          None \<Rightarrow> Some None
        | Some n \<Rightarrow>
            if equalInterval (intervalKey (nodes s n)) interval
            then Some (Some (intervalKey (nodes s n)))
            else Some None)
     }"

datatype error = IndexOutOfBounds int | NodeNotFound int

partial_function (option) advance_pos ::
  "heap \<Rightarrow> nat \<Rightarrow> addr \<Rightarrow> int \<Rightarrow> (addr \<times> int) option" where
  [code]: "advance_pos h i n pos =
     Option.bind (level_at h n i) (\<lambda>l.
       case next_node l of
         None \<Rightarrow> Some (n, pos)
       | Some m \<Rightarrow>
           if pos \<ge> span l
           then advance_pos h i m (pos - span l)
           else Some (n, pos))"

fun descend_pos :: "heap \<Rightarrow> nat \<Rightarrow> addr \<Rightarrow> int \<Rightarrow> (addr \<times> int) option" where
  "descend_pos h 0 n pos = Some (n, pos)"
| "descend_pos h (Suc i) n pos =
     Option.bind (advance_pos h i n pos) (\<lambda>(n', pos'). descend_pos h i n' pos')"

definition GetByIndex :: "SkipList \<Rightarrow> int \<Rightarrow> (error + IntervalKey) option" where
  "GetByIndex s index =
     (if index < 0 \<or> index \<ge> length_sl s
      then Some (Inl (IndexOutOfBounds index))
      else do {
        (n, pos) \<leftarrow> descend_pos (nodes s) (nat (maxSearchLevel s + 1)) (head s) (index + 1);
        if n \<noteq> head s
        then Some (Inr (intervalKey (nodes s n)))
        else Some (Inl (NodeNotFound index))
      })"

section \<open>Reachable lists and their traversal\<close>

inductive reachable :: "SkipList \<Rightarrow> bool" where
  init: "reachable (New g)"
| ins: "reachable s \<Longrightarrow> Insert k s = Some (r, s') \<Longrightarrow> reachable s'"
| del: "reachable s \<Longrightarrow> Delete k s = Some (r, s') \<Longrightarrow> reachable s'"

text \<open>
  The walk \<^verbatim>\<open>for n != nil { ...; n = n.levels[i].next }\<close> that the printer and the
  tests use to read a level: the addresses visited from \<open>p\<close> on.
\<close>

partial_function (option) chain :: "heap \<Rightarrow> nat \<Rightarrow> addr option \<Rightarrow> addr list option" where
  [code]: "chain h i p =
     (case p of
        None \<Rightarrow> Some []
      | Some a \<Rightarrow>
          Option.bind (level_at h a i) (\<lambda>l.
            Option.bind (chain h i (next_node l)) (\<lambda>r. Some (a # r))))"

definition stored :: "SkipList \<Rightarrow> IntervalKey list option" where
  "stored s =
     do {
       l \<leftarrow> level_at (nodes s) (head s) 0;
       as \<leftarrow> chain (nodes s) 0 (next_node l);
       Some (map (\<lambda>a. intervalKey (nodes s a)) as)
     }"

text \<open>
  A run of \<^verbatim>\<open>Insert\<close> and \<^verbatim>\<open>Delete\<close> calls, each on the list the previous call left.
\<close>

datatype operation = InsertOp IntervalKey | DeleteOp IntervalKey

fun apply_ops :: "operation list \<Rightarrow> SkipList \<Rightarrow> SkipList option" where
  "apply_ops [] s = Some s"
| "apply_ops (InsertOp k # ops) s = Option.bind (Insert k s) (\<lambda>(r, s'). apply_ops ops s')"
| "apply_ops (DeleteOp k # ops) s = Option.bind (Delete k s) (\<lambda>(r, s'). apply_ops ops s')"

text \<open>
  The list of the package overview in the README: the intervals \<open>[10,20]\<close> and
  \<open>[30,40]\<close>, inserted into a new list. The random source is one whose first draw is
  below \<open>levelThreshold\<close> and whose later draws are not, so the first node gets two
  levels and the second one.
\<close>

definition readme_draws :: "nat \<Rightarrow> int" where
  "readme_draws n = (if n = 0 then 0 else 1073741824)"

definition readme_keys :: "IntervalKey list" where
  "readme_keys = [\<lparr>Start = 10, End = 20, Key = ''A''\<rparr>, \<lparr>Start = 30, End = 40, Key = ''B''\<rparr>]"

definition readme_list :: SkipList where
  "readme_list = the (apply_ops (map InsertOp readme_keys) (New readme_draws))"

text \<open>
  The sum of the span fields of the nodes \<open>path\<close>, read at level \<open>i\<close>.
\<close>

definition span_sum :: "heap \<Rightarrow> nat \<Rightarrow> addr list \<Rightarrow> int" where
  "span_sum h i path = sum_list (map (\<lambda>a. span (levels (h a) ! i)) path)"

section \<open>The structure of a reachable list\<close>

text \<open>
  The ghost description of a list: the addresses \<open>ns\<close> of its nodes in base order
  determine every link and every span that a traversal reads. \<open>succ_at ht i bs\<close> is the
  first node of \<open>bs\<close> that has a level \<open>i\<close>, with its distance counted in base nodes.
\<close>

definition height :: "heap \<Rightarrow> addr \<Rightarrow> nat" where
  "height h a = length (levels (h a))"

definition lvl :: "heap \<Rightarrow> nat \<Rightarrow> addr \<Rightarrow> nodeLevel" where
  "lvl h i a = levels (h a) ! i"

definition key_of :: "heap \<Rightarrow> addr \<Rightarrow> IntervalKey" where
  "key_of h a = intervalKey (h a)"

fun succ_at :: "(addr \<Rightarrow> nat) \<Rightarrow> nat \<Rightarrow> addr list \<Rightarrow> (addr \<times> int) option" where
  "succ_at ht i [] = None"
| "succ_at ht i (b # bs) =
     (if i < ht b then Some (b, 1)
      else map_option (\<lambda>(c, d). (c, d + 1)) (succ_at ht i bs))"

definition link_ok :: "nodeLevel \<Rightarrow> (addr \<times> int) option \<Rightarrow> bool" where
  "link_ok l r =
     (case r of
        None \<Rightarrow> next_node l = None
      | Some (b, d) \<Rightarrow> next_node l = Some b \<and> span l = d)"

fun linked_at :: "(addr \<Rightarrow> nat) \<Rightarrow> (addr \<Rightarrow> nodeLevel) \<Rightarrow> nat \<Rightarrow> addr list \<Rightarrow> bool" where
  "linked_at ht lv i [] = True"
| "linked_at ht lv i (a # as) =
     ((i < ht a \<longrightarrow> link_ok (lv a) (succ_at ht i as)) \<and> linked_at ht lv i as)"

definition path_at :: "(addr \<Rightarrow> nat) \<Rightarrow> nat \<Rightarrow> addr list \<Rightarrow> addr \<Rightarrow> nat \<Rightarrow> bool" where
  "path_at ht i front p d =
     (\<exists>pre mid. front = pre @ p # mid \<and> length pre = d \<and> i < ht p \<and> (\<forall>b\<in>set mid. ht b \<le> i))"

definition list_inv :: "SkipList \<Rightarrow> addr list \<Rightarrow> bool" where
  "list_inv s ns =
     (distinct (head s # ns) \<and>
      height (nodes s) (head s) = MaxLevel \<and>
      key_of (nodes s) (head s) = zeroKey \<and>
      maxLevel s \<le> MaxLevel \<and>
      (\<forall>a\<in>set ns. 1 \<le> height (nodes s) a \<and> height (nodes s) a \<le> maxLevel s) \<and>
      (\<forall>i. linked_at (height (nodes s)) (lvl (nodes s) i) i (head s # ns)) \<and>
      sorted_wrt less_key (map (key_of (nodes s)) ns) \<and>
      length_sl s = int (length ns) \<and>
      distinct (pool s) \<and>
      set (pool s) \<inter> set (head s # ns) = {} \<and>
      (\<forall>a\<in>set (pool s) \<union> set (head s # ns). a < fresh s))"

section \<open>Lemmas about the structure\<close>

subsection \<open>The order of interval keys\<close>

lemma less_key_irrefl: "\<not> less_key a a"
  by (simp add: less_key_def)

lemma less_key_trans: "less_key a b \<Longrightarrow> less_key b c \<Longrightarrow> less_key a c"
  by (auto simp: less_key_def split: if_splits)

lemma less_key_asym: "less_key a b \<Longrightarrow> \<not> less_key b a"
  by (auto simp: less_key_def split: if_splits)

lemma less_key_total: "less_key a b \<or> equalInterval a b \<or> less_key b a"
  by (auto simp: less_key_def equalInterval_def)

lemma equalInterval_not_less: "equalInterval a b \<Longrightarrow> \<not> less_key a b \<and> \<not> less_key b a"
  by (auto simp: less_key_def equalInterval_def)

lemma less_key_equal_left: "equalInterval a b \<Longrightarrow> less_key a c = less_key b c"
  by (auto simp: less_key_def equalInterval_def)

lemma less_key_equal_right: "equalInterval a b \<Longrightarrow> less_key c a = less_key c b"
  by (auto simp: less_key_def equalInterval_def)

subsection \<open>Successors at a level\<close>

lemma succ_at_low:
  "\<forall>b\<in>set mid. ht b \<le> i \<Longrightarrow>
   succ_at ht i (mid @ rest) = map_option (\<lambda>(c, d). (c, d + int (length mid))) (succ_at ht i rest)"
  by (induction mid) (cases "succ_at ht i rest"; auto)+

lemma succ_at_hit:
  "\<forall>b\<in>set mid. ht b \<le> i \<Longrightarrow> i < ht p \<Longrightarrow>
   succ_at ht i (mid @ p # rest) = Some (p, int (length mid) + 1)"
  by (simp add: succ_at_low)

lemma succ_at_None: "succ_at ht i bs = None \<longleftrightarrow> (\<forall>b\<in>set bs. ht b \<le> i)"
  by (induction bs) auto

lemma succ_at_Some:
  "succ_at ht i bs = Some (c, d) \<Longrightarrow>
   \<exists>mid rest. bs = mid @ c # rest \<and> (\<forall>b\<in>set mid. ht b \<le> i) \<and> i < ht c \<and> d = int (length mid) + 1"
proof (induction bs arbitrary: d)
  case Nil
  then show ?case by simp
next
  case (Cons b bs)
  show ?case
  proof (cases "i < ht b")
    case True
    with Cons.prems have "c = b" "d = 1" by auto
    with True show ?thesis by (intro exI [of _ "[]"] exI [of _ bs]) simp
  next
    case False
    with Cons.prems obtain d' where s: "succ_at ht i bs = Some (c, d')" and d: "d = d' + 1"
      by (auto split: prod.splits)
    from Cons.IH [OF s] obtain mid rest where
      "bs = mid @ c # rest" "\<forall>b\<in>set mid. ht b \<le> i" "i < ht c" "d' = int (length mid) + 1"
      by blast
    with False d show ?thesis
      by (intro exI [of _ "b # mid"] exI [of _ rest]) auto
  qed
qed

lemma succ_at_cong:
  "\<forall>b\<in>set bs. ht' b = ht b \<Longrightarrow> succ_at ht' i bs = succ_at ht i bs"
  by (induction bs) auto

lemma succ_at_prefix:
  "i < ht p \<Longrightarrow> \<forall>b\<in>set A. ht' b = ht b \<Longrightarrow> ht' p = ht p \<Longrightarrow>
   succ_at ht' i (A @ p # r2) = succ_at ht i (A @ p # r1)"
  by (induction A) auto

subsection \<open>Linked levels\<close>

lemma linked_at_suffix: "linked_at ht lv i (A @ B) \<Longrightarrow> linked_at ht lv i B"
  by (induction A) auto

lemma linked_at_cong:
  "\<forall>b\<in>set bs. ht' b = ht b \<and> lv' b = lv b \<Longrightarrow>
   linked_at ht' lv' i bs = linked_at ht lv i bs"
proof (induction bs)
  case Nil
  then show ?case by simp
next
  case (Cons b bs)
  then have "succ_at ht' i bs = succ_at ht i bs"
    by (intro succ_at_cong) simp
  with Cons show ?case by simp
qed

lemma linked_at_low:
  "\<forall>b\<in>set mid. ht b \<le> i \<Longrightarrow> linked_at ht lv i (mid @ rest) = linked_at ht lv i rest"
  by (induction mid) auto

lemma linked_at_prefix:
  "i < ht p \<Longrightarrow> linked_at ht lv i (A @ p # r1) \<Longrightarrow> linked_at ht' lv' i (p # r2) \<Longrightarrow>
   \<forall>b\<in>set A. ht' b = ht b \<and> lv' b = lv b \<Longrightarrow> ht' p = ht p \<Longrightarrow>
   linked_at ht' lv' i (A @ p # r2)"
proof (induction A)
  case Nil
  then show ?case by simp
next
  case (Cons a A)
  have "succ_at ht' i (A @ p # r2) = succ_at ht i (A @ p # r1)"
    using Cons.prems by (intro succ_at_prefix) auto
  with Cons show ?case by auto
qed

lemma linked_at_top:
  "\<forall>b\<in>set ns. ht b \<le> i \<Longrightarrow>
   linked_at ht lv i (hd0 # ns) = (i < ht hd0 \<longrightarrow> next_node (lv hd0) = None)"
proof -
  assume low: "\<forall>b\<in>set ns. ht b \<le> i"
  then have "succ_at ht i ns = None" by (simp add: succ_at_None)
  moreover have "linked_at ht lv i ns"
    using linked_at_low [OF low, of lv "[]"] by simp
  ultimately show ?thesis by (simp add: link_ok_def)
qed

lemma link_ok_low:
  "link_ok l (map_option (\<lambda>(c, d). (c, d + k)) r) =
     (case r of None \<Rightarrow> next_node l = None | Some (b, d) \<Rightarrow> next_node l = Some b \<and> span l = d + k)"
  by (cases r) (auto simp: link_ok_def)

lemma linked_at_insert_link:
  assumes old: "linked_at ht lv i (pre @ p # mid @ hi)"
    and p: "i < ht p" and mid: "\<forall>b\<in>set mid. ht b \<le> i"
    and dist: "distinct (pre @ p # mid @ hi)" and n: "n \<notin> set (pre @ p # mid @ hi)"
    and r: "i < r" and ht': "ht' = ht(n := r)"
    and lv': "lv' = lv(n := ln, p := lp)"
    and lp: "next_node lp = Some n" "span lp = int (length mid) + 1"
    and ln1: "next_node ln = next_node (lv p)"
    and ln2: "next_node (lv p) \<noteq> None \<longrightarrow> span ln = span (lv p) - int (length mid)"
  shows "linked_at ht' lv' i (pre @ p # mid @ n # hi)"
proof -
  have np: "n \<noteq> p" using n by auto
  have old_p: "link_ok (lv p) (succ_at ht i (mid @ hi))" and old_hi: "linked_at ht lv i hi"
    using linked_at_suffix [OF old] p linked_at_suffix [of ht lv i "pre @ p # mid" hi] old
    by auto
  have hi_same: "\<forall>b\<in>set hi. ht' b = ht b \<and> lv' b = lv b"
    using n dist by (auto simp: ht' lv')
  have new_hi: "linked_at ht' lv' i hi"
    using linked_at_cong [OF hi_same] old_hi by simp
  have succ_hi: "succ_at ht' i hi = succ_at ht i hi"
    using hi_same by (intro succ_at_cong) simp
  have "link_ok (lv' n) (succ_at ht' i hi)"
    using old_p ln1 ln2 np
    by (cases "succ_at ht i hi")
       (auto simp: succ_hi lv' succ_at_low [OF mid] link_ok_def)
  with new_hi have new_n: "linked_at ht' lv' i (n # hi)" by simp
  have mid': "\<forall>b\<in>set mid. ht' b \<le> i" using mid n by (auto simp: ht')
  have "linked_at ht' lv' i (mid @ n # hi)"
    using linked_at_low [OF mid', of lv' "n # hi"] new_n by simp
  moreover have "succ_at ht' i (mid @ n # hi) = Some (n, int (length mid) + 1)"
    using mid' r by (intro succ_at_hit) (auto simp: ht')
  ultimately have new_p: "linked_at ht' lv' i (p # mid @ n # hi)"
    using lp by (simp add: lv' link_ok_def)
  have pre_same: "\<forall>b\<in>set pre. ht' b = ht b \<and> lv' b = lv b"
    using n dist by (auto simp: ht' lv')
  have "ht' p = ht p" using np by (simp add: ht')
  from linked_at_prefix [OF p old new_p pre_same this] show ?thesis .
qed

lemma linked_at_insert_skip:
  assumes old: "linked_at ht lv i (pre @ p # mid @ hi)"
    and p: "i < ht p" and mid: "\<forall>b\<in>set mid. ht b \<le> i"
    and dist: "distinct (pre @ p # mid @ hi)" and n: "n \<notin> set (pre @ p # mid @ hi)"
    and r: "r \<le> i" and ht': "ht' = ht(n := r)"
    and lv': "lv' = lv(p := lp)"
    and lp: "next_node lp = next_node (lv p)" "span lp = span (lv p) + 1"
  shows "linked_at ht' lv' i (pre @ p # mid @ n # hi)"
proof -
  have np: "n \<noteq> p" using n by auto
  have old_p: "link_ok (lv p) (succ_at ht i (mid @ hi))" and old_hi: "linked_at ht lv i hi"
    using linked_at_suffix [OF old] p linked_at_suffix [of ht lv i "pre @ p # mid" hi] old
    by auto
  have hi_same: "\<forall>b\<in>set hi. ht' b = ht b \<and> lv' b = lv b"
    using n dist by (auto simp: ht' lv')
  have new_hi: "linked_at ht' lv' i hi"
    using linked_at_cong [OF hi_same] old_hi by simp
  have succ_hi: "succ_at ht' i hi = succ_at ht i hi"
    using hi_same by (intro succ_at_cong) simp
  have midn: "\<forall>b\<in>set (mid @ [n]). ht' b \<le> i" using mid n r by (auto simp: ht')
  have "linked_at ht' lv' i ((mid @ [n]) @ hi)"
    using linked_at_low [OF midn, of lv' hi] new_hi by simp
  moreover have "succ_at ht' i ((mid @ [n]) @ hi) =
      map_option (\<lambda>(c, d). (c, d + int (length (mid @ [n])))) (succ_at ht' i hi)"
    by (rule succ_at_low [OF midn])
  moreover have "link_ok (lv' p) (map_option (\<lambda>(c, d). (c, d + int (length (mid @ [n])))) (succ_at ht' i hi))"
    using old_p lp
    by (cases "succ_at ht i hi")
       (auto simp: succ_hi lv' succ_at_low [OF mid] link_ok_def)
  ultimately have new_p: "linked_at ht' lv' i (p # mid @ n # hi)"
    by simp
  have pre_same: "\<forall>b\<in>set pre. ht' b = ht b \<and> lv' b = lv b"
    using n dist by (auto simp: ht' lv')
  have "ht' p = ht p" using np by (simp add: ht')
  from linked_at_prefix [OF p old new_p pre_same this] show ?thesis .
qed

lemma linked_at_pred_next:
  assumes old: "linked_at ht lv i (pre @ p # mid @ t # hi)"
    and p: "i < ht p" and mid: "\<forall>b\<in>set mid. ht b \<le> i"
    and dist: "distinct (pre @ p # mid @ t # hi)"
  shows "next_node (lv p) = Some t \<longleftrightarrow> i < ht t"
proof -
  have old_p: "link_ok (lv p) (succ_at ht i (mid @ t # hi))"
    using linked_at_suffix [OF old] p by auto
  show ?thesis
  proof (cases "i < ht t")
    case True
    then have "succ_at ht i (mid @ t # hi) = Some (t, int (length mid) + 1)"
      using mid by (intro succ_at_hit)
    with old_p True show ?thesis by (simp add: link_ok_def)
  next
    case False
    have "next_node (lv p) \<noteq> Some t"
    proof (cases "succ_at ht i hi")
      case None
      with old_p False show ?thesis by (simp add: succ_at_low [OF mid] link_ok_def)
    next
      case (Some cd)
      obtain c d where cd: "cd = (c, d)" by (cases cd)
      from succ_at_Some [OF Some [unfolded cd]] have "c \<in> set hi" by auto
      with dist have "c \<noteq> t" by auto
      with old_p False Some cd show ?thesis by (simp add: succ_at_low [OF mid] link_ok_def)
    qed
    with False show ?thesis by simp
  qed
qed

lemma linked_at_delete_unlink:
  assumes old: "linked_at ht lv i (pre @ p # mid @ t # hi)"
    and p: "i < ht p" and mid: "\<forall>b\<in>set mid. ht b \<le> i"
    and dist: "distinct (pre @ p # mid @ t # hi)"
    and t: "i < ht t"
    and lv': "lv' = lv(p := lp)"
    and lp1: "next_node lp = next_node (lv t)"
    and lp2: "next_node (lv t) \<noteq> None \<longrightarrow> span lp = span (lv p) + (span (lv t) - 1)"
  shows "linked_at ht lv' i (pre @ p # mid @ hi)"
proof -
  have old_p: "link_ok (lv p) (succ_at ht i (mid @ t # hi))"
    using linked_at_suffix [OF old] p by auto
  have old_t: "link_ok (lv t) (succ_at ht i hi)" and old_hi: "linked_at ht lv i hi"
    using linked_at_suffix [of ht lv i "pre @ p # mid" "t # hi"] old t by auto
  have sp: "span (lv p) = int (length mid) + 1"
    using old_p succ_at_hit [OF mid t, of hi] by (simp add: link_ok_def)
  have hi_same: "\<forall>b\<in>set hi. ht b = ht b \<and> lv' b = lv b"
    using dist by (auto simp: lv')
  have new_hi: "linked_at ht lv' i hi"
    using linked_at_cong [OF hi_same] old_hi by simp
  have "linked_at ht lv' i (mid @ hi)"
    using linked_at_low [OF mid, of lv' hi] new_hi by simp
  moreover have "link_ok (lv' p) (succ_at ht i (mid @ hi))"
    using old_t lp1 lp2 sp
    by (cases "succ_at ht i hi") (auto simp: lv' succ_at_low [OF mid] link_ok_def)
  ultimately have new_p: "linked_at ht lv' i (p # mid @ hi)"
    using p by simp
  have pre_same: "\<forall>b\<in>set pre. ht b = ht b \<and> lv' b = lv b"
    using dist by (auto simp: lv')
  from linked_at_prefix [OF p old new_p pre_same] show ?thesis by simp
qed

lemma linked_at_delete_skip:
  assumes old: "linked_at ht lv i (pre @ p # mid @ t # hi)"
    and p: "i < ht p" and mid: "\<forall>b\<in>set mid. ht b \<le> i"
    and dist: "distinct (pre @ p # mid @ t # hi)"
    and t: "ht t \<le> i"
    and lv': "lv' = lv(p := lp)"
    and lp: "next_node lp = next_node (lv p)" "span lp = span (lv p) - 1"
  shows "linked_at ht lv' i (pre @ p # mid @ hi)"
proof -
  have old_p: "link_ok (lv p) (succ_at ht i (mid @ t # hi))"
    using linked_at_suffix [OF old] p by auto
  have old_hi: "linked_at ht lv i hi"
    using linked_at_suffix [of ht lv i "pre @ p # mid @ [t]" hi] old by auto
  have hi_same: "\<forall>b\<in>set hi. ht b = ht b \<and> lv' b = lv b"
    using dist by (auto simp: lv')
  have new_hi: "linked_at ht lv' i hi"
    using linked_at_cong [OF hi_same] old_hi by simp
  have "linked_at ht lv' i (mid @ hi)"
    using linked_at_low [OF mid, of lv' hi] new_hi by simp
  moreover have "link_ok (lv' p) (succ_at ht i (mid @ hi))"
    using old_p t lp
    by (cases "succ_at ht i hi")
       (auto simp: lv' succ_at_low [OF mid] link_ok_def)
  ultimately have new_p: "linked_at ht lv' i (p # mid @ hi)"
    using p by simp
  have pre_same: "\<forall>b\<in>set pre. ht b = ht b \<and> lv' b = lv b"
    using dist by (auto simp: lv')
  from linked_at_prefix [OF p old new_p pre_same] show ?thesis by simp
qed

subsection \<open>Reading and writing level records\<close>

lemma level_at_Some [simp]: "i < height h a \<Longrightarrow> level_at h a i = Some (lvl h i a)"
  by (simp add: level_at_def height_def lvl_def)

lemma level_at_None [simp]: "\<not> i < height h a \<Longrightarrow> level_at h a i = None"
  by (simp add: level_at_def height_def)

lemma set_span_Some [simp]: "i < height h a \<Longrightarrow> set_span h a i v = Some (with_span h a i v)"
  by (simp add: set_span_def height_def)

lemma set_next_Some [simp]: "i < height h a \<Longrightarrow> set_next h a i v = Some (with_next h a i v)"
  by (simp add: set_next_def height_def)

lemma height_with_span [simp]: "height (with_span h a i v) = height h"
  by (auto simp: with_span_def height_def fun_eq_iff)

lemma height_with_next [simp]: "height (with_next h a i v) = height h"
  by (auto simp: with_next_def height_def fun_eq_iff)

lemma key_of_with_span [simp]: "key_of (with_span h a i v) = key_of h"
  by (auto simp: with_span_def key_of_def fun_eq_iff)

lemma key_of_with_next [simp]: "key_of (with_next h a i v) = key_of h"
  by (auto simp: with_next_def key_of_def fun_eq_iff)

lemma lvl_with_span:
  "lvl (with_span h a i v) j b =
     (if b = a \<and> j = i \<and> i < height h a then (lvl h i a)\<lparr>span := v\<rparr> else lvl h j b)"
  by (auto simp: with_span_def lvl_def height_def list_update_beyond)

lemma lvl_with_next:
  "lvl (with_next h a i v) j b =
     (if b = a \<and> j = i \<and> i < height h a then (lvl h i a)\<lparr>next_node := v\<rparr> else lvl h j b)"
  by (auto simp: with_next_def lvl_def height_def list_update_beyond)

lemma path_at_extend:
  "path_at ht i bs p d \<Longrightarrow> path_at ht i (A @ bs) p (length A + d)"
  unfolding path_at_def
  by (elim exE conjE, rule_tac x = "A @ pre" in exI) auto

lemma path_at_start:
  "i < ht a \<Longrightarrow> \<forall>b\<in>set lo. ht b \<le> i \<Longrightarrow> path_at ht i (a # lo) a 0"
  unfolding path_at_def by (intro exI [of _ "[]"] exI [of _ lo]) simp

subsection \<open>The walks along a level\<close>

lemma advance_dist_correct:
  assumes "linked_at (height h) (lvl h i) i (a # lo @ hi)"
    and "i < height h a"
    and "\<forall>b\<in>set lo. less_key (key_of h b) K"
    and "\<forall>b\<in>set hi. \<not> less_key (key_of h b) K"
  shows "\<exists>p d'. advance_dist h K i a d = Some (p, d + int d') \<and> path_at (height h) i (a # lo) p d'"
  using assms
proof (induction "length lo" arbitrary: a d lo rule: less_induct)
  case less
  let ?ht = "height h"
  have lk: "link_ok (lvl h i a) (succ_at ?ht i (lo @ hi))"
    using less.prems(1,2) by simp
  show ?case
  proof (cases "\<forall>b\<in>set lo. ?ht b \<le> i")
    case True
    have "advance_dist h K i a d = Some (a, d)"
    proof (cases "succ_at ?ht i hi")
      case None
      with lk True have "next_node (lvl h i a) = None"
        by (simp add: succ_at_low link_ok_def)
      then show ?thesis
        using less.prems(2) by (subst advance_dist.simps) simp
    next
      case (Some cd)
      obtain c d0 where cd: "cd = (c, d0)" by (cases cd)
      from succ_at_Some [OF Some [unfolded cd]] have "c \<in> set hi" by auto
      then have "\<not> less_key (key_of h c) K" using less.prems(4) by simp
      moreover have "next_node (lvl h i a) = Some c"
        using lk True Some cd by (simp add: succ_at_low link_ok_def)
      ultimately show ?thesis
        using less.prems(2) by (subst advance_dist.simps) (simp add: key_of_def)
    qed
    moreover have "path_at ?ht i (a # lo) a 0"
      using less.prems(2) True by (rule path_at_start)
    ultimately show ?thesis by (intro exI [of _ a] exI [of _ 0]) simp
  next
    case False
    then have "\<exists>x\<in>set lo. i < ?ht x" by (meson not_le)
    from split_list_first_prop [OF this] obtain l1 b l2 where
      lo: "lo = l1 @ b # l2" and b: "i < ?ht b" and l1: "\<forall>c\<in>set l1. ?ht c \<le> i"
      by (auto simp: not_less)
    have "succ_at ?ht i (lo @ hi) = Some (b, int (length l1) + 1)"
      using succ_at_hit [OF l1 b, of "l2 @ hi"] by (simp add: lo)
    with lk have nx: "next_node (lvl h i a) = Some b" and sp: "span (lvl h i a) = int (length l1) + 1"
      by (simp_all add: link_ok_def)
    have bk: "less_key (key_of h b) K" using less.prems(3) lo by simp
    have step: "advance_dist h K i a d = advance_dist h K i b (d + (int (length l1) + 1))"
      using less.prems(2) nx sp bk by (subst advance_dist.simps) (simp add: key_of_def)
    have "linked_at ?ht (lvl h i) i (b # l2 @ hi)"
      using linked_at_suffix [of ?ht "lvl h i" i "a # l1" "b # l2 @ hi"] less.prems(1)
      by (simp add: lo)
    moreover have "length l2 < length lo" by (simp add: lo)
    moreover have "\<forall>c\<in>set l2. less_key (key_of h c) K" using less.prems(3) lo by simp
    ultimately obtain p d' where
      r: "advance_dist h K i b (d + (int (length l1) + 1)) = Some (p, d + (int (length l1) + 1) + int d')"
      and pa: "path_at ?ht i (b # l2) p d'"
      using less.hyps [of l2 b "d + (int (length l1) + 1)"] b less.prems(4) by blast
    from path_at_extend [OF pa, of "a # l1"]
    have "path_at ?ht i (a # lo) p (length l1 + 1 + d')" by (simp add: lo)
    with step r show ?thesis
      by (intro exI [of _ p] exI [of _ "length l1 + 1 + d'"]) simp
  qed
qed

lemma advance_correct:
  assumes "linked_at (height h) (lvl h i) i (a # lo @ hi)"
    and "i < height h a"
    and "\<forall>b\<in>set lo. less_key (key_of h b) K"
    and "\<forall>b\<in>set hi. \<not> less_key (key_of h b) K"
  shows "\<exists>p d'. advance h K i a = Some p \<and> path_at (height h) i (a # lo) p d'"
  using assms
proof (induction "length lo" arbitrary: a lo rule: less_induct)
  case less
  let ?ht = "height h"
  have lk: "link_ok (lvl h i a) (succ_at ?ht i (lo @ hi))"
    using less.prems(1,2) by simp
  show ?case
  proof (cases "\<forall>b\<in>set lo. ?ht b \<le> i")
    case True
    have "advance h K i a = Some a"
    proof (cases "succ_at ?ht i hi")
      case None
      with lk True have "next_node (lvl h i a) = None"
        by (simp add: succ_at_low link_ok_def)
      then show ?thesis
        using less.prems(2) by (subst advance.simps) simp
    next
      case (Some cd)
      obtain c d0 where cd: "cd = (c, d0)" by (cases cd)
      from succ_at_Some [OF Some [unfolded cd]] have "c \<in> set hi" by auto
      then have "\<not> less_key (key_of h c) K" using less.prems(4) by simp
      moreover have "next_node (lvl h i a) = Some c"
        using lk True Some cd by (simp add: succ_at_low link_ok_def)
      ultimately show ?thesis
        using less.prems(2) by (subst advance.simps) (simp add: key_of_def)
    qed
    moreover have "path_at ?ht i (a # lo) a 0"
      using less.prems(2) True by (rule path_at_start)
    ultimately show ?thesis by blast
  next
    case False
    then have "\<exists>x\<in>set lo. i < ?ht x" by (meson not_le)
    from split_list_first_prop [OF this] obtain l1 b l2 where
      lo: "lo = l1 @ b # l2" and b: "i < ?ht b" and l1: "\<forall>c\<in>set l1. ?ht c \<le> i"
      by (auto simp: not_less)
    have "succ_at ?ht i (lo @ hi) = Some (b, int (length l1) + 1)"
      using succ_at_hit [OF l1 b, of "l2 @ hi"] by (simp add: lo)
    with lk have nx: "next_node (lvl h i a) = Some b"
      by (simp_all add: link_ok_def)
    have bk: "less_key (key_of h b) K" using less.prems(3) lo by simp
    have step: "advance h K i a = advance h K i b"
      using less.prems(2) nx bk by (subst advance.simps) (simp add: key_of_def)
    have "linked_at ?ht (lvl h i) i (b # l2 @ hi)"
      using linked_at_suffix [of ?ht "lvl h i" i "a # l1" "b # l2 @ hi"] less.prems(1)
      by (simp add: lo)
    moreover have "length l2 < length lo" by (simp add: lo)
    moreover have "\<forall>c\<in>set l2. less_key (key_of h c) K" using less.prems(3) lo by simp
    ultimately obtain p d' where
      r: "advance h K i b = Some p" and pa: "path_at ?ht i (b # l2) p d'"
      using less.hyps [of l2 b] b less.prems(4) by blast
    from path_at_extend [OF pa, of "a # l1"]
    have "path_at ?ht i (a # lo) p (length l1 + 1 + d')" by (simp add: lo)
    with step r show ?thesis by auto
  qed
qed

subsection \<open>The descent through the levels\<close>

lemma path_at_less:
  "path_at ht i (n # mid) p d \<Longrightarrow> \<forall>b\<in>set mid. P b \<Longrightarrow>
   \<exists>pre2 mid2. n # mid = pre2 @ p # mid2 \<and> length pre2 = d \<and> i < ht p \<and> (\<forall>b\<in>set mid2. P b)"
proof -
  assume pa: "path_at ht i (n # mid) p d" and P: "\<forall>b\<in>set mid. P b"
  from pa obtain pre2 mid2 where
    e: "n # mid = pre2 @ p # mid2" and l: "length pre2 = d" and p: "i < ht p"
    unfolding path_at_def by blast
  have "set mid2 \<subseteq> set mid"
  proof (cases pre2)
    case Nil
    with e show ?thesis by simp
  next
    case (Cons x xs)
    with e have "mid = xs @ p # mid2" by simp
    then show ?thesis by auto
  qed
  with P e l p show ?thesis by blast
qed

lemma insert_search_correct:
  assumes "\<forall>j. linked_at (height h) (lvl h j) j (front @ hi)"
    and "front = pre @ n # mid"
    and "c \<le> height h n"
    and "\<forall>b\<in>set mid. less_key (key_of h b) K"
    and "\<forall>b\<in>set hi. \<not> less_key (key_of h b) K"
    and "c \<le> length dist" and "length np = length dist"
    and "c < length dist \<longrightarrow> dist ! c = int (length pre)"
    and "c = length dist \<longrightarrow> 0 < c \<longrightarrow> dist ! (c - 1) = int (length pre)"
  shows "\<exists>n' dist' np'. insert_search h K c n dist np = Some (n', dist', np') \<and>
           length dist' = length dist \<and> length np' = length np \<and>
           (\<forall>j<c. \<exists>p dj. np' ! j = Some p \<and> dist' ! j = int dj \<and> path_at (height h) j front p dj) \<and>
           (\<forall>j\<ge>c. dist' ! j = dist ! j \<and> np' ! j = np ! j) \<and>
           (0 < c \<longrightarrow> np' ! 0 = Some n') \<and> (c = 0 \<longrightarrow> n' = n)"
  using assms(2-)
proof (induction c arbitrary: n dist np pre mid)
  case 0
  then show ?case by simp
next
  case (Suc i)
  let ?ht = "height h"
  define dist1 where "dist1 = (if int i < int (length dist) - 1 then dist[i := dist ! (i + 1)] else dist)"
  have il: "i < length dist" "i < length np" using Suc.prems by auto
  have l1: "length dist1 = length dist"
    and o1: "\<forall>j. j \<noteq> i \<longrightarrow> dist1 ! j = dist ! j"
    by (auto simp: dist1_def)
  have d1: "dist1 ! i = int (length pre)"
  proof (cases "Suc i < length dist")
    case True
    then show ?thesis using Suc.prems(7) il by (simp add: dist1_def)
  next
    case False
    then have "length dist = Suc i" using il by simp
    then show ?thesis using Suc.prems(8) by (simp add: dist1_def)
  qed
  have "linked_at ?ht (lvl h i) i (n # mid @ hi)"
    using assms(1) linked_at_suffix [of ?ht "lvl h i" i pre "n # mid @ hi"] Suc.prems(1)
    by simp
  moreover have "i < ?ht n" using Suc.prems(2) by simp
  ultimately obtain p d' where
    adv: "advance_dist h K i n (int (length pre)) = Some (p, int (length pre) + int d')"
    and pa: "path_at ?ht i (n # mid) p d'"
    using advance_dist_correct [of h i n mid hi K "int (length pre)"] Suc.prems(3,4) by blast
  from path_at_less [OF pa Suc.prems(3)] obtain pre2 mid2 where
    e: "n # mid = pre2 @ p # mid2" and l2: "length pre2 = d'" and ip: "i < ?ht p"
    and m2: "\<forall>b\<in>set mid2. less_key (key_of h b) K"
    by blast
  let ?dist2 = "dist1[i := int (length pre) + int d']"
  let ?np2 = "np[i := Some p]"
  have fr: "front = (pre @ pre2) @ p # mid2" using Suc.prems(1) e by simp
  have "\<exists>n' dist' np'. insert_search h K i p ?dist2 ?np2 = Some (n', dist', np') \<and>
           length dist' = length ?dist2 \<and> length np' = length ?np2 \<and>
           (\<forall>j<i. \<exists>p dj. np' ! j = Some p \<and> dist' ! j = int dj \<and> path_at ?ht j front p dj) \<and>
           (\<forall>j\<ge>i. dist' ! j = ?dist2 ! j \<and> np' ! j = ?np2 ! j) \<and>
           (0 < i \<longrightarrow> np' ! 0 = Some n') \<and> (i = 0 \<longrightarrow> n' = p)"
    using ip m2 Suc.prems(4,5,6) il l1 l2
    by (intro Suc.IH [OF fr]) auto
  then obtain n' dist' np' where
    r: "insert_search h K i p ?dist2 ?np2 = Some (n', dist', np')"
    and len: "length dist' = length dist" "length np' = length np"
    and lowj: "\<forall>j<i. \<exists>p dj. np' ! j = Some p \<and> dist' ! j = int dj \<and> path_at ?ht j front p dj"
    and highj: "\<forall>j\<ge>i. dist' ! j = ?dist2 ! j \<and> np' ! j = ?np2 ! j"
    and fin: "0 < i \<longrightarrow> np' ! 0 = Some n'" "i = 0 \<longrightarrow> n' = p"
    using l1 by auto
  have run: "insert_search h K (Suc i) n dist np = Some (n', dist', np')"
    using il adv r d1 by (simp add: dist1_def [symmetric] Let_def)
  have "path_at ?ht i front p (length pre + d')"
    using path_at_extend [OF pa, of pre] Suc.prems(1) by simp
  moreover have "np' ! i = Some p" "dist' ! i = int (length pre + d')"
    using highj il l1 by auto
  ultimately have ati: "\<exists>p dj. np' ! i = Some p \<and> dist' ! i = int dj \<and> path_at ?ht i front p dj"
    by blast
  have "\<forall>j<Suc i. \<exists>p dj. np' ! j = Some p \<and> dist' ! j = int dj \<and> path_at ?ht j front p dj"
    using lowj ati less_Suc_eq by auto
  moreover have "\<forall>j\<ge>Suc i. dist' ! j = dist ! j \<and> np' ! j = np ! j"
    using highj o1 by auto
  moreover have "np' ! 0 = Some n'"
    using fin highj il by (cases "i = 0") auto
  ultimately show ?case using run len by auto
qed

lemma delete_search_correct:
  assumes "\<forall>j. linked_at (height h) (lvl h j) j (front @ hi)"
    and "front = pre @ n # mid"
    and "c \<le> height h n"
    and "\<forall>b\<in>set mid. less_key (key_of h b) K"
    and "\<forall>b\<in>set hi. \<not> less_key (key_of h b) K"
    and "c \<le> length np"
  shows "\<exists>n' np'. delete_search h K c n np = Some (n', np') \<and> length np' = length np \<and>
           (\<forall>j<c. \<exists>p dj. np' ! j = Some p \<and> path_at (height h) j front p dj) \<and>
           (\<forall>j\<ge>c. np' ! j = np ! j) \<and>
           (0 < c \<longrightarrow> np' ! 0 = Some n') \<and> (c = 0 \<longrightarrow> n' = n)"
  using assms(2-)
proof (induction c arbitrary: n np pre mid)
  case 0
  then show ?case by simp
next
  case (Suc i)
  let ?ht = "height h"
  have il: "i < length np" using Suc.prems by auto
  have "linked_at ?ht (lvl h i) i (n # mid @ hi)"
    using assms(1) linked_at_suffix [of ?ht "lvl h i" i pre "n # mid @ hi"] Suc.prems(1)
    by simp
  moreover have "i < ?ht n" using Suc.prems(2) by simp
  ultimately obtain p d' where
    adv: "advance h K i n = Some p" and pa: "path_at ?ht i (n # mid) p d'"
    using advance_correct [of h i n mid hi K] Suc.prems(3,4) by blast
  from path_at_less [OF pa Suc.prems(3)] obtain pre2 mid2 where
    e: "n # mid = pre2 @ p # mid2" and l2: "length pre2 = d'" and ip: "i < ?ht p"
    and m2: "\<forall>b\<in>set mid2. less_key (key_of h b) K"
    by blast
  let ?np2 = "np[i := Some p]"
  have fr: "front = (pre @ pre2) @ p # mid2" using Suc.prems(1) e by simp
  have "\<exists>n' np'. delete_search h K i p ?np2 = Some (n', np') \<and> length np' = length ?np2 \<and>
           (\<forall>j<i. \<exists>p dj. np' ! j = Some p \<and> path_at ?ht j front p dj) \<and>
           (\<forall>j\<ge>i. np' ! j = ?np2 ! j) \<and>
           (0 < i \<longrightarrow> np' ! 0 = Some n') \<and> (i = 0 \<longrightarrow> n' = p)"
    using ip m2 Suc.prems(4) il
    by (intro Suc.IH [OF fr]) auto
  then obtain n' np' where
    r: "delete_search h K i p ?np2 = Some (n', np')"
    and len: "length np' = length np"
    and lowj: "\<forall>j<i. \<exists>p dj. np' ! j = Some p \<and> path_at ?ht j front p dj"
    and highj: "\<forall>j\<ge>i. np' ! j = ?np2 ! j"
    and fin: "0 < i \<longrightarrow> np' ! 0 = Some n'" "i = 0 \<longrightarrow> n' = p"
    by auto
  have run: "delete_search h K (Suc i) n np = Some (n', np')"
    using il adv r by (simp add: upd_opt_def)
  have "path_at ?ht i front p (length pre + d')"
    using path_at_extend [OF pa, of pre] Suc.prems(1) by simp
  moreover have "np' ! i = Some p"
    using highj il by auto
  ultimately have ati: "\<exists>p dj. np' ! i = Some p \<and> path_at ?ht i front p dj"
    by blast
  have "\<forall>j<Suc i. \<exists>p dj. np' ! j = Some p \<and> path_at ?ht j front p dj"
    using lowj ati less_Suc_eq by auto
  moreover have "\<forall>j\<ge>Suc i. np' ! j = np ! j"
    using highj by auto
  moreover have "np' ! 0 = Some n'"
    using fin highj il by (cases "i = 0") auto
  ultimately show ?case using run len by auto
qed

lemma descend_correct:
  assumes "\<forall>j. linked_at (height h) (lvl h j) j (front @ hi)"
    and "front = pre @ n # mid"
    and "c \<le> height h n"
    and "\<forall>b\<in>set mid. less_key (key_of h b) K"
    and "\<forall>b\<in>set hi. \<not> less_key (key_of h b) K"
  shows "\<exists>n'. descend h K c n = Some n' \<and>
           (0 < c \<longrightarrow> (\<exists>d. path_at (height h) 0 front n' d)) \<and> (c = 0 \<longrightarrow> n' = n)"
  using assms(2-)
proof (induction c arbitrary: n pre mid)
  case 0
  then show ?case by simp
next
  case (Suc i)
  let ?ht = "height h"
  have "linked_at ?ht (lvl h i) i (n # mid @ hi)"
    using assms(1) linked_at_suffix [of ?ht "lvl h i" i pre "n # mid @ hi"] Suc.prems(1)
    by simp
  moreover have "i < ?ht n" using Suc.prems(2) by simp
  ultimately obtain p d' where
    adv: "advance h K i n = Some p" and pa: "path_at ?ht i (n # mid) p d'"
    using advance_correct [of h i n mid hi K] Suc.prems(3,4) by blast
  from path_at_less [OF pa Suc.prems(3)] obtain pre2 mid2 where
    e: "n # mid = pre2 @ p # mid2" and l2: "length pre2 = d'" and ip: "i < ?ht p"
    and m2: "\<forall>b\<in>set mid2. less_key (key_of h b) K"
    by blast
  have fr: "front = (pre @ pre2) @ p # mid2" using Suc.prems(1) e by simp
  have "\<exists>n'. descend h K i p = Some n' \<and>
           (0 < i \<longrightarrow> (\<exists>d. path_at ?ht 0 front n' d)) \<and> (i = 0 \<longrightarrow> n' = p)"
    using ip m2 Suc.prems(4)
    by (intro Suc.IH [OF fr]) auto
  then obtain n' where
    r: "descend h K i p = Some n'"
    and fin: "0 < i \<longrightarrow> (\<exists>d. path_at ?ht 0 front n' d)" "i = 0 \<longrightarrow> n' = p"
    by auto
  have run: "descend h K (Suc i) n = Some n'"
    using adv r by simp
  have "path_at ?ht i front p (length pre + d')"
    using path_at_extend [OF pa, of pre] Suc.prems(1) by simp
  then have "\<exists>d. path_at ?ht 0 front n' d"
    using fin by (cases "i = 0") auto
  with run show ?case by simp
qed

subsection \<open>Allocation and the random level\<close>

lemma randomLevel_loop_bounds:
  "level \<le> MaxLevel \<Longrightarrow> randomLevel_loop g level = (r, g') \<Longrightarrow> level \<le> r \<and> r \<le> MaxLevel"
proof (induction g level rule: randomLevel_loop.induct)
  case (1 g level)
  show ?case
  proof (cases "g 0 < levelThreshold \<and> level < MaxLevel")
    case True
    then have "randomLevel_loop (\<lambda>n. g (Suc n)) (level + 1) = (r, g')"
      using "1.prems"(2) by (subst (asm) randomLevel_loop.simps) simp
    with "1.IH" [OF True] True show ?thesis by simp
  next
    case False
    then have "r = level"
      using "1.prems"(2) by (subst (asm) randomLevel_loop.simps) auto
    with "1.prems"(1) show ?thesis by simp
  qed
qed

lemma randomLevel_props:
  "randomLevel s = (r, s1) \<Longrightarrow> 1 \<le> r \<and> r \<le> MaxLevel \<and> (\<exists>g. s1 = s\<lparr>PCG := g\<rparr>)"
proof -
  assume a: "randomLevel s = (r, s1)"
  obtain l g where lg: "randomLevel_loop (PCG s) 1 = (l, g)" by (cases "randomLevel_loop (PCG s) 1")
  have "1 \<le> MaxLevel" by (simp add: MaxLevel_def)
  from randomLevel_loop_bounds [OF this lg] a lg show ?thesis
    by (auto simp: randomLevel_def)
qed

lemma newNode_props:
  assumes "newNode r K s = (n, s')"
    and "distinct (pool s)" and "set (pool s) \<inter> X = {}"
    and "\<forall>a\<in>set (pool s) \<union> X. a < fresh s"
  shows "n \<notin> X \<and> n \<notin> set (pool s') \<and> distinct (pool s') \<and> set (pool s') \<subseteq> set (pool s) \<and>
         (\<forall>a\<in>set (pool s') \<union> X \<union> {n}. a < fresh s') \<and>
         (\<exists>N. nodes s' = (nodes s)(n := N) \<and> length (levels N) = r \<and> intervalKey N = K) \<and>
         head s' = head s \<and> maxLevel s' = maxLevel s \<and> length_sl s' = length_sl s \<and>
         PCG s' = PCG s"
proof (cases "pool s")
  case Nil
  with assms(1) have n: "n = fresh s"
    and s': "s' = s\<lparr>nodes := (nodes s)(fresh s :=
        (if r \<le> 0 then emptyNode\<lparr>levels := take r [], spare := drop r []\<rparr>
         else emptyNode\<lparr>levels := replicate r zeroLevel, spare := []\<rparr>)\<lparr>intervalKey := K\<rparr>),
        fresh := Suc (fresh s)\<rparr>"
    by (auto simp: newNode_def pool_get_def Let_def emptyNode_def)
  from assms(4) have "n \<notin> X" unfolding n by auto
  moreover have "\<forall>a\<in>set (pool s') \<union> X \<union> {n}. a < fresh s'"
    using assms(4) Nil by (auto simp: s' n less_Suc_eq)
  ultimately show ?thesis
    using Nil by (auto simp: s' n emptyNode_def)
next
  case (Cons a rest)
  with assms(1) have n: "n = a"
    and s': "s' = s\<lparr>pool := rest, nodes := (nodes s)(a :=
        (if r \<le> length (levels (nodes s a) @ spare (nodes s a))
         then (nodes s a)\<lparr>levels := take r (levels (nodes s a) @ spare (nodes s a)),
                           spare := drop r (levels (nodes s a) @ spare (nodes s a))\<rparr>
         else (nodes s a)\<lparr>levels := replicate r zeroLevel, spare := []\<rparr>)\<lparr>intervalKey := K\<rparr>)\<rparr>"
    by (auto simp: newNode_def pool_get_def Let_def)
  have "n \<notin> X" using assms(3) Cons n by auto
  moreover have "n \<notin> set (pool s')" "distinct (pool s')" "set (pool s') \<subseteq> set (pool s)"
    using assms(2) Cons by (auto simp: s' n)
  moreover have "\<forall>a\<in>set (pool s') \<union> X \<union> {n}. a < fresh s'"
    using assms(4) Cons by (auto simp: s' n)
  ultimately show ?thesis
    by (auto simp: s' n)
qed

subsection \<open>Linking one level\<close>

lemma link_level_link:
  assumes "i < r" "i < height h p" "i < height h n" "n \<noteq> p"
  shows "\<exists>h'. link_level i n r dist p h = Some h' \<and> height h' = height h \<and> key_of h' = key_of h \<and>
           (\<forall>j. j \<noteq> i \<longrightarrow> lvl h' j = lvl h j) \<and>
           (\<exists>ln lp. lvl h' i = (lvl h i)(n := ln, p := lp) \<and>
              next_node ln = next_node (lvl h i p) \<and>
              span ln = span (lvl h i p) - (dist ! 0 - dist ! i) \<and>
              next_node lp = Some n \<and> span lp = (dist ! 0 - dist ! i) + 1)"
proof -
  let ?d = "dist ! 0 - dist ! i"
  let ?h' = "with_span (with_next (with_span (with_next h n i (next_node (lvl h i p))) n i
                (span (lvl h i p) - ?d)) p i (Some n)) p i (?d + 1)"
  have run: "link_level i n r dist p h = Some ?h'"
    using assms by (simp add: link_level_def lvl_with_next)
  have other: "\<forall>j. j \<noteq> i \<longrightarrow> lvl ?h' j = lvl h j"
    by (auto simp: lvl_with_span lvl_with_next fun_eq_iff)
  let ?ln = "(lvl h i n)\<lparr>next_node := next_node (lvl h i p), span := span (lvl h i p) - ?d\<rparr>"
  let ?lp = "(lvl h i p)\<lparr>next_node := Some n, span := ?d + 1\<rparr>"
  have "lvl ?h' i = (lvl h i)(n := ?ln, p := ?lp)"
    using assms by (auto simp: lvl_with_span lvl_with_next fun_eq_iff)
  then have "\<exists>ln lp. lvl ?h' i = (lvl h i)(n := ln, p := lp) \<and>
              next_node ln = next_node (lvl h i p) \<and> span ln = span (lvl h i p) - ?d \<and>
              next_node lp = Some n \<and> span lp = ?d + 1"
    by (intro exI [of _ ?ln] exI [of _ ?lp]) simp
  with run other show ?thesis by simp
qed

lemma link_level_skip:
  assumes "r \<le> i" "i < height h p"
  shows "\<exists>h'. link_level i n r dist p h = Some h' \<and> height h' = height h \<and> key_of h' = key_of h \<and>
           (\<forall>j. j \<noteq> i \<longrightarrow> lvl h' j = lvl h j) \<and>
           (\<exists>lp. lvl h' i = (lvl h i)(p := lp) \<and>
              next_node lp = next_node (lvl h i p) \<and> span lp = span (lvl h i p) + 1)"
proof -
  let ?h' = "with_span h p i (span (lvl h i p) + 1)"
  have run: "link_level i n r dist p h = Some ?h'"
    using assms by (simp add: link_level_def)
  have other: "\<forall>j. j \<noteq> i \<longrightarrow> lvl ?h' j = lvl h j"
    by (auto simp: lvl_with_span fun_eq_iff)
  let ?lp = "(lvl h i p)\<lparr>span := span (lvl h i p) + 1\<rparr>"
  have "lvl ?h' i = (lvl h i)(p := ?lp)"
    using assms by (auto simp: lvl_with_span fun_eq_iff)
  then have "\<exists>lp. lvl ?h' i = (lvl h i)(p := lp) \<and>
              next_node lp = next_node (lvl h i p) \<and> span lp = span (lvl h i p) + 1"
    by (intro exI [of _ ?lp]) simp
  with run other show ?thesis by simp
qed

lemma insert_link_step:
  assumes old: "linked_at (height h1) (lvl h1 i) i (pre @ p # mid @ hi)"
    and p: "i < height h1 p" and mid: "\<forall>b\<in>set mid. height h1 b \<le> i"
    and dist: "distinct (pre @ p # mid @ hi)" and n: "n \<notin> set (pre @ p # mid @ hi)"
    and r: "height h1 n = r" and d: "dist ! 0 - dist ! i = int (length mid)"
  shows "\<exists>h'. link_level i n r dist p h1 = Some h' \<and> height h' = height h1 \<and>
           key_of h' = key_of h1 \<and> (\<forall>j. j \<noteq> i \<longrightarrow> lvl h' j = lvl h1 j) \<and>
           linked_at (height h1) (lvl h' i) i (pre @ p # mid @ n # hi)"
proof -
  have ht: "height h1 = (height h1)(n := r)" using r by (auto simp: fun_eq_iff)
  have np: "n \<noteq> p" using n by auto
  show ?thesis
  proof (cases "i < r")
    case True
    then have "i < height h1 n" using r by simp
    from link_level_link [OF True p this np, of dist] obtain h' ln lp where
      run: "link_level i n r dist p h1 = Some h'" and same: "height h' = height h1"
        "key_of h' = key_of h1" "\<forall>j. j \<noteq> i \<longrightarrow> lvl h' j = lvl h1 j"
      and lv: "lvl h' i = (lvl h1 i)(n := ln, p := lp)"
      and ln: "next_node ln = next_node (lvl h1 i p)"
        "span ln = span (lvl h1 i p) - (dist ! 0 - dist ! i)"
      and lp: "next_node lp = Some n" "span lp = (dist ! 0 - dist ! i) + 1"
      by blast
    have "linked_at (height h1) (lvl h' i) i (pre @ p # mid @ n # hi)"
      using ln lp d
      by (intro linked_at_insert_link [OF old p mid dist n True ht lv]) auto
    with run same show ?thesis by simp
  next
    case False
    then have ri: "r \<le> i" by simp
    from link_level_skip [OF ri p, of n dist] obtain h' lp where
      run: "link_level i n r dist p h1 = Some h'" and same: "height h' = height h1"
        "key_of h' = key_of h1" "\<forall>j. j \<noteq> i \<longrightarrow> lvl h' j = lvl h1 j"
      and lv: "lvl h' i = (lvl h1 i)(p := lp)"
      and lp: "next_node lp = next_node (lvl h1 i p)" "span lp = span (lvl h1 i p) + 1"
      by blast
    have "linked_at (height h1) (lvl h' i) i (pre @ p # mid @ n # hi)"
      by (rule linked_at_insert_skip [OF old p mid dist n ri ht lv lp])
    with run same show ?thesis by simp
  qed
qed

lemma insert_link_loop:
  assumes dist_xs: "distinct (hd0 # lo @ hi)" and n: "n \<notin> set (hd0 # lo @ hi)"
    and hd0: "hd0 = head s2"
    and hth: "height h2 hd0 = MaxLevel"
    and low: "\<forall>b\<in>set (lo @ hi). height h2 b \<le> m0"
    and r: "height h2 n = r" "r \<le> MaxLevel" and m0: "m0 \<le> MaxLevel"
    and old_linked: "\<forall>j. linked_at (height h2) (lvl h2 j) j (hd0 # lo @ hi)"
    and paths: "\<forall>j<m0. \<exists>p dj. nodePath ! j = Some p \<and> dist ! j = int dj \<and>
                  path_at (height h2) j (hd0 # lo) p dj"
    and dist_hi: "\<forall>j\<ge>m0. j < MaxLevel \<longrightarrow> dist ! j = 0"
    and dist0: "dist ! 0 = int (length lo)"
    and cur: "s = s2\<lparr>maxLevel := max m0 i, nodes := h\<rparr>"
    and hh: "height h = height h2" "key_of h = key_of h2"
    and lower: "\<forall>j<i. linked_at (height h2) (lvl h j) j (hd0 # lo @ n # hi)"
    and todo: "\<forall>j\<ge>i. lvl h j = lvl h2 j"
    and np: "length np = MaxLevel" "\<forall>j. i \<le> j \<and> j < m0 \<longrightarrow> np ! j = nodePath ! j"
    and bound: "i + c = max m0 r"
  shows "\<exists>h3. insert_link c i n r dist np s = Some (s2\<lparr>maxLevel := max m0 r, nodes := h3\<rparr>) \<and>
           height h3 = height h2 \<and> key_of h3 = key_of h2 \<and>
           (\<forall>j. linked_at (height h2) (lvl h3 j) j (hd0 # lo @ n # hi))"
  using cur hh lower todo np bound
proof (induction c arbitrary: i s h np)
  case 0
  let ?ht = "height h2"
  have i: "i = max m0 r" using "0.prems" by simp
  have "linked_at ?ht (lvl h j) j (hd0 # lo @ n # hi)" for j
  proof (cases "j < i")
    case True
    with "0.prems" show ?thesis by simp
  next
    case False
    then have ji: "i \<le> j" by simp
    then have e: "lvl h j = lvl h2 j" using "0.prems" by simp
    have mj: "m0 \<le> j" "r \<le> j" using ji i by auto
    have l2: "\<forall>b\<in>set (lo @ hi). ?ht b \<le> j"
    proof
      fix b assume "b \<in> set (lo @ hi)"
      with low have "?ht b \<le> m0" by blast
      with mj show "?ht b \<le> j" by simp
    qed
    then have l1: "\<forall>b\<in>set (lo @ n # hi). ?ht b \<le> j" using r mj by auto
    have "linked_at ?ht (lvl h2 j) j (hd0 # lo @ hi)" using old_linked by simp
    then show ?thesis
      unfolding e linked_at_top [OF l1] linked_at_top [OF l2] .
  qed
  then have "\<forall>j. linked_at ?ht (lvl h j) j (hd0 # lo @ n # hi)" by blast
  moreover have "insert_link 0 i n r dist np s = Some (s2\<lparr>maxLevel := max m0 r, nodes := h\<rparr>)"
    using "0.prems"(1) i by simp
  ultimately show ?case using "0.prems"(2,3) by blast
next
  case (Suc c)
  let ?ht = "height h2"
  have iM: "i < max m0 r" using Suc.prems by simp
  then have i32: "i < MaxLevel" using r m0 by simp
  have "\<exists>p pre mid h1 np1.
          grow_level i np s = Some (np1, s2\<lparr>maxLevel := max m0 (Suc i), nodes := h1\<rparr>) \<and>
          np1 ! i = Some p \<and> length np1 = MaxLevel \<and>
          (\<forall>j. Suc i \<le> j \<and> j < m0 \<longrightarrow> np1 ! j = nodePath ! j) \<and>
          height h1 = ?ht \<and> key_of h1 = key_of h2 \<and>
          (\<forall>j. j \<noteq> i \<longrightarrow> lvl h1 j = lvl h j) \<and>
          hd0 # lo = pre @ p # mid \<and> i < ?ht p \<and> (\<forall>b\<in>set mid. ?ht b \<le> i) \<and>
          dist ! 0 - dist ! i = int (length mid) \<and>
          linked_at ?ht (lvl h1 i) i (pre @ p # mid @ hi)"
  proof (cases "m0 \<le> i")
    case True
    let ?h1 = "with_span h hd0 i (length_sl s)"
    have ml: "maxLevel s = i" using Suc.prems(1) True by simp
    have ih: "i < height h hd0" using i32 hth Suc.prems(2) by simp
    have run: "grow_level i np s =
        Some (np[i := Some hd0], s2\<lparr>maxLevel := max m0 (Suc i), nodes := ?h1\<rparr>)"
      using ml ih Suc.prems(1,6) i32 True hd0
      by (simp add: grow_level_def upd_opt_def max_def)
    have all_low: "\<forall>b\<in>set (lo @ hi). ?ht b \<le> i"
    proof
      fix b assume "b \<in> set (lo @ hi)"
      with low have "?ht b \<le> m0" by blast
      with True show "?ht b \<le> i" by simp
    qed
    then have lo_low: "\<forall>b\<in>set lo. ?ht b \<le> i" by simp
    have e: "lvl h i = lvl h2 i" using Suc.prems(5) by simp
    have "linked_at ?ht (lvl h2 i) i (hd0 # lo @ hi)" using old_linked by simp
    then have "next_node (lvl h2 i hd0) = None"
      unfolding linked_at_top [OF all_low] using i32 hth by simp
    then have "linked_at ?ht (lvl ?h1 i) i (hd0 # lo @ hi)"
      unfolding linked_at_top [OF all_low] by (simp add: lvl_with_span e)
    moreover have "dist ! 0 - dist ! i = int (length lo)"
      using dist0 dist_hi True i32 by simp
    moreover have "\<forall>j. j \<noteq> i \<longrightarrow> lvl ?h1 j = lvl h j"
      by (auto simp: lvl_with_span fun_eq_iff)
    ultimately show ?thesis
      using run Suc.prems(2,3,6,7) i32 hth lo_low
      by (intro exI [of _ hd0] exI [of _ "[]"] exI [of _ lo] exI [of _ ?h1]
            exI [of _ "np[i := Some hd0]"]) simp
  next
    case False
    then have im: "i < m0" by simp
    then have ml: "maxLevel s = m0" "max m0 (Suc i) = m0" using Suc.prems(1) by auto
    from paths im obtain p dj where
      pj: "nodePath ! i = Some p" "dist ! i = int dj" and pa: "path_at ?ht i (hd0 # lo) p dj"
      by blast
    from pa obtain pre mid where
      e: "hd0 # lo = pre @ p # mid" and l: "length pre = dj" and ip: "i < ?ht p"
      and mid: "\<forall>b\<in>set mid. ?ht b \<le> i"
      unfolding path_at_def by blast
    have "length (hd0 # lo) = length (pre @ p # mid)" using e by simp
    then have "dist ! 0 - dist ! i = int (length mid)"
      using dist0 pj(2) l by simp
    moreover have "linked_at ?ht (lvl h i) i (pre @ p # mid @ hi)"
      using old_linked e Suc.prems(5)
      by (metis append_Cons append_assoc order_refl)
    moreover have "grow_level i np s = Some (np, s2\<lparr>maxLevel := max m0 (Suc i), nodes := h\<rparr>)"
      using ml im Suc.prems(1) by (simp add: grow_level_def)
    moreover have "np ! i = Some p" using Suc.prems(7) im pj by simp
    ultimately show ?thesis
      using Suc.prems(2,3,6,7) e ip mid
      by (intro exI [of _ p] exI [of _ pre] exI [of _ mid] exI [of _ h] exI [of _ np]) simp
  qed
  then obtain p pre mid h1 np1 where
    grow: "grow_level i np s = Some (np1, s2\<lparr>maxLevel := max m0 (Suc i), nodes := h1\<rparr>)"
    and np1: "np1 ! i = Some p" "length np1 = MaxLevel"
      "\<forall>j. Suc i \<le> j \<and> j < m0 \<longrightarrow> np1 ! j = nodePath ! j"
    and h1: "height h1 = ?ht" "key_of h1 = key_of h2" "\<forall>j. j \<noteq> i \<longrightarrow> lvl h1 j = lvl h j"
    and e: "hd0 # lo = pre @ p # mid" and ip: "i < ?ht p" and mid: "\<forall>b\<in>set mid. ?ht b \<le> i"
    and d: "dist ! 0 - dist ! i = int (length mid)"
    and lk: "linked_at ?ht (lvl h1 i) i (pre @ p # mid @ hi)"
    by blast
  have xs: "hd0 # lo @ hi = pre @ p # mid @ hi" "hd0 # lo @ n # hi = pre @ p # mid @ n # hi"
    using e by (metis append_Cons append_assoc)+
  have "\<exists>h'. link_level i n r dist p h1 = Some h' \<and> height h' = height h1 \<and>
           key_of h' = key_of h1 \<and> (\<forall>j. j \<noteq> i \<longrightarrow> lvl h' j = lvl h1 j) \<and>
           linked_at (height h1) (lvl h' i) i (pre @ p # mid @ n # hi)"
    using lk ip mid dist_xs n r(1) d unfolding xs
    by (intro insert_link_step) (simp_all add: h1)
  then obtain h' where
    link: "link_level i n r dist p h1 = Some h'"
    and h': "height h' = ?ht" "key_of h' = key_of h2" "\<forall>j. j \<noteq> i \<longrightarrow> lvl h' j = lvl h1 j"
    and lk': "linked_at ?ht (lvl h' i) i (hd0 # lo @ n # hi)"
    unfolding xs by (auto simp: h1)
  have step: "insert_link (Suc c) i n r dist np s =
      insert_link c (Suc i) n r dist np1 (s2\<lparr>maxLevel := max m0 (Suc i), nodes := h'\<rparr>)"
    using grow np1 i32 link by (simp add: nth_opt_def)
  have done': "\<forall>j<Suc i. linked_at ?ht (lvl h' j) j (hd0 # lo @ n # hi)"
    using Suc.prems(4) lk' h'(3) h1(3) by (auto simp: less_Suc_eq)
  have todo': "\<forall>j\<ge>Suc i. lvl h' j = lvl h2 j"
    using Suc.prems(5) h'(3) h1(3) by auto
  have "\<exists>h3. insert_link c (Suc i) n r dist np1 (s2\<lparr>maxLevel := max m0 (Suc i), nodes := h'\<rparr>) =
           Some (s2\<lparr>maxLevel := max m0 r, nodes := h3\<rparr>) \<and>
           height h3 = ?ht \<and> key_of h3 = key_of h2 \<and>
           (\<forall>j. linked_at ?ht (lvl h3 j) j (hd0 # lo @ n # hi))"
  proof -
    have b: "Suc i + c = max m0 r" using Suc.prems(8) by simp
    from Suc.IH [OF refl h'(1,2) done' todo' np1(2,3) b] show ?thesis .
  qed
  with step show ?case by simp
qed

subsection \<open>The predecessor at the base level\<close>

lemma level0_pred:
  assumes "path_at ht 0 (hd0 # lo) p d" and "\<forall>b\<in>set lo. 1 \<le> ht b"
  shows "p = last (hd0 # lo) \<and> d = length lo"
proof -
  from assms(1) obtain pre mid where
    e: "hd0 # lo = pre @ p # mid" and l: "length pre = d" and mid: "\<forall>b\<in>set mid. ht b \<le> 0"
    unfolding path_at_def by blast
  have "set mid \<subseteq> set lo"
  proof (cases pre)
    case Nil
    with e show ?thesis by simp
  next
    case (Cons x xs)
    with e have "lo = xs @ p # mid" by simp
    then show ?thesis by auto
  qed
  with assms(2) mid have "mid = []" by (cases mid) force+
  with e l show ?thesis
    by (metis last_snoc length_append_singleton length_Cons nat.inject)
qed

lemma succ_at_base:
  "\<forall>b\<in>set hi. 1 \<le> ht b \<Longrightarrow>
   succ_at ht 0 hi = (case hi of [] \<Rightarrow> None | b # _ \<Rightarrow> Some (b, 1))"
  by (cases hi) auto

lemma inv_pred_next:
  assumes "list_inv s (lo @ hi)"
  shows "level_at (nodes s) (last (head s # lo)) 0 = Some (lvl (nodes s) 0 (last (head s # lo)))"
    and "next_node (lvl (nodes s) 0 (last (head s # lo))) = (case hi of [] \<Rightarrow> None | b # _ \<Rightarrow> Some b)"
proof -
  let ?h = "nodes s" and ?p = "last (head s # lo)"
  have hts: "\<forall>b\<in>set (lo @ hi). 1 \<le> height ?h b" and hh: "height ?h (head s) = MaxLevel"
    and lk: "linked_at (height ?h) (lvl ?h 0) 0 (head s # lo @ hi)"
    using assms by (auto simp: list_inv_def)
  have p: "0 < height ?h ?p"
  proof (cases lo)
    case Nil
    with hh show ?thesis by (simp add: MaxLevel_def)
  next
    case (Cons a as)
    then have "?p \<in> set lo" by (metis last_ConsR last_in_set list.distinct(1))
    with hts show ?thesis by force
  qed
  then show "level_at ?h ?p 0 = Some (lvl ?h 0 ?p)" by simp
  have "head s # lo @ hi = butlast (head s # lo) @ ?p # hi"
    by (metis append_Cons append_assoc append_butlast_last_id list.distinct(1) append_Nil)
  with lk have "linked_at (height ?h) (lvl ?h 0) 0 (?p # hi)"
    using linked_at_suffix [of "height ?h" "lvl ?h 0" 0 "butlast (head s # lo)" "?p # hi"] by simp
  with p have "link_ok (lvl ?h 0 ?p) (succ_at (height ?h) 0 hi)" by simp
  moreover have "succ_at (height ?h) 0 hi = (case hi of [] \<Rightarrow> None | b # _ \<Rightarrow> Some (b, 1))"
    using hts by (intro succ_at_base) simp
  ultimately show "next_node (lvl ?h 0 ?p) = (case hi of [] \<Rightarrow> None | b # _ \<Rightarrow> Some b)"
    by (cases hi) (auto simp: link_ok_def)
qed

lemma inv_empty_at_zero:
  assumes "list_inv s ns" and "maxLevel s = 0"
  shows "ns = []"
proof (cases ns)
  case Nil
  then show ?thesis .
next
  case (Cons a as)
  with assms have "a \<in> set ns" "\<forall>a\<in>set ns. 1 \<le> height (nodes s) a \<and> height (nodes s) a \<le> 0"
    unfolding list_inv_def by auto
  then have "1 \<le> height (nodes s) a \<and> height (nodes s) a \<le> 0" by blast
  then show ?thesis by linarith
qed

lemma search_insert:
  assumes list_inv: "list_inv s (lo @ hi)"
    and lo: "\<forall>b\<in>set lo. less_key (key_of (nodes s) b) K"
    and hi: "\<forall>b\<in>set hi. \<not> less_key (key_of (nodes s) b) K"
  shows "\<exists>dist np.
           insert_search (nodes s) K (maxLevel s) (head s)
             (replicate MaxLevel 0) (replicate MaxLevel None) =
             Some (last (head s # lo), dist, np) \<and>
           length dist = MaxLevel \<and> length np = MaxLevel \<and>
           (\<forall>j<maxLevel s. \<exists>p dj. np ! j = Some p \<and> dist ! j = int dj \<and>
               path_at (height (nodes s)) j (head s # lo) p dj) \<and>
           (\<forall>j\<ge>maxLevel s. j < MaxLevel \<longrightarrow> dist ! j = 0) \<and>
           dist ! 0 = int (length lo)"
proof -
  let ?h = "nodes s" and ?c = "maxLevel s"
  have lk: "\<forall>j. linked_at (height ?h) (lvl ?h j) j ((head s # lo) @ hi)"
    and hh: "height ?h (head s) = MaxLevel" and c: "?c \<le> MaxLevel"
    and hts: "\<forall>b\<in>set lo. 1 \<le> height ?h b"
    using list_inv by (auto simp: list_inv_def)
  have "\<exists>n' dist' np'. insert_search ?h K ?c (head s) (replicate MaxLevel 0) (replicate MaxLevel None)
            = Some (n', dist', np') \<and>
           length dist' = length (replicate MaxLevel (0::int)) \<and>
           length np' = length (replicate MaxLevel (None::addr option)) \<and>
           (\<forall>j<?c. \<exists>p dj. np' ! j = Some p \<and> dist' ! j = int dj \<and>
               path_at (height ?h) j (head s # lo) p dj) \<and>
           (\<forall>j\<ge>?c. dist' ! j = replicate MaxLevel 0 ! j \<and> np' ! j = replicate MaxLevel None ! j) \<and>
           (0 < ?c \<longrightarrow> np' ! 0 = Some n') \<and> (?c = 0 \<longrightarrow> n' = head s)"
    using lo hi hh c
    by (intro insert_search_correct [OF lk, of "[]" "head s" lo]) auto
  then obtain n' dist np where
    run: "insert_search ?h K ?c (head s) (replicate MaxLevel 0) (replicate MaxLevel None)
            = Some (n', dist, np)"
    and len0: "length dist = length (replicate MaxLevel (0::int))"
      "length np = length (replicate MaxLevel (None::addr option))"
    and paths: "\<forall>j<?c. \<exists>p dj. np ! j = Some p \<and> dist ! j = int dj \<and>
               path_at (height ?h) j (head s # lo) p dj"
    and high0: "\<forall>j\<ge>?c. dist ! j = replicate MaxLevel 0 ! j \<and> np ! j = replicate MaxLevel None ! j"
    and fin: "0 < ?c \<longrightarrow> np ! 0 = Some n'" "?c = 0 \<longrightarrow> n' = head s"
    by (elim exE conjE) (rule that; assumption)
  have len: "length dist = MaxLevel" "length np = MaxLevel" using len0 by simp_all
  have high: "\<forall>j\<ge>?c. j < MaxLevel \<longrightarrow> dist ! j = 0"
  proof (intro allI impI)
    fix j assume "?c \<le> j" "j < MaxLevel"
    with high0 have "dist ! j = replicate MaxLevel 0 ! j" by blast
    with \<open>j < MaxLevel\<close> show "dist ! j = 0" by simp
  qed
  have "n' = last (head s # lo) \<and> dist ! 0 = int (length lo)"
  proof (cases "?c = 0")
    case True
    with inv_empty_at_zero [OF list_inv] have "lo = []" by simp
    moreover have "0 < MaxLevel" by (simp add: MaxLevel_def)
    ultimately show ?thesis using True fin(2) high by simp
  next
    case False
    with paths obtain p dj where
      pp: "np ! 0 = Some p" "dist ! 0 = int dj" and pa: "path_at (height ?h) 0 (head s # lo) p dj"
      by auto
    from level0_pred [OF pa hts] pp fin(1) False show ?thesis by simp
  qed
  with run len paths high show ?thesis by blast
qed

lemma search_delete:
  assumes list_inv: "list_inv s (lo @ hi)"
    and lo: "\<forall>b\<in>set lo. less_key (key_of (nodes s) b) K"
    and hi: "\<forall>b\<in>set hi. \<not> less_key (key_of (nodes s) b) K"
  shows "\<exists>np.
           delete_search (nodes s) K (maxLevel s) (head s) (replicate MaxLevel None) =
             Some (last (head s # lo), np) \<and>
           length np = MaxLevel \<and>
           (\<forall>j<maxLevel s. \<exists>p dj. np ! j = Some p \<and>
               path_at (height (nodes s)) j (head s # lo) p dj)"
proof -
  let ?h = "nodes s" and ?c = "maxLevel s"
  have lk: "\<forall>j. linked_at (height ?h) (lvl ?h j) j ((head s # lo) @ hi)"
    and hh: "height ?h (head s) = MaxLevel" and c: "?c \<le> MaxLevel"
    and hts: "\<forall>b\<in>set lo. 1 \<le> height ?h b"
    using list_inv by (auto simp: list_inv_def)
  have "\<exists>n' np'. delete_search ?h K ?c (head s) (replicate MaxLevel None) = Some (n', np') \<and>
           length np' = length (replicate MaxLevel (None::addr option)) \<and>
           (\<forall>j<?c. \<exists>p dj. np' ! j = Some p \<and> path_at (height ?h) j (head s # lo) p dj) \<and>
           (\<forall>j\<ge>?c. np' ! j = replicate MaxLevel None ! j) \<and>
           (0 < ?c \<longrightarrow> np' ! 0 = Some n') \<and> (?c = 0 \<longrightarrow> n' = head s)"
    using lo hi hh c
    by (intro delete_search_correct [OF lk, of "[]" "head s" lo]) auto
  then obtain n' np where
    run: "delete_search ?h K ?c (head s) (replicate MaxLevel None) = Some (n', np)"
    and len0: "length np = length (replicate MaxLevel (None::addr option))"
    and paths: "\<forall>j<?c. \<exists>p dj. np ! j = Some p \<and> path_at (height ?h) j (head s # lo) p dj"
    and high0: "\<forall>j\<ge>?c. np ! j = replicate MaxLevel None ! j"
    and fin: "0 < ?c \<longrightarrow> np ! 0 = Some n'" "?c = 0 \<longrightarrow> n' = head s"
    by (elim exE conjE) (rule that; assumption)
  have len: "length np = MaxLevel" using len0 by simp
  have "n' = last (head s # lo)"
  proof (cases "?c = 0")
    case True
    with inv_empty_at_zero [OF list_inv] have "lo = []" by simp
    with True fin(2) show ?thesis by simp
  next
    case False
    with paths obtain p dj where
      pp: "np ! 0 = Some p" and pa: "path_at (height ?h) 0 (head s # lo) p dj"
      by auto
    from level0_pred [OF pa hts] pp fin(1) False show ?thesis by simp
  qed
  with run len paths show ?thesis by blast
qed

lemma search_descend:
  assumes list_inv: "list_inv s (lo @ hi)"
    and lo: "\<forall>b\<in>set lo. less_key (key_of (nodes s) b) K"
    and hi: "\<forall>b\<in>set hi. \<not> less_key (key_of (nodes s) b) K"
  shows "descend (nodes s) K (nat (maxSearchLevel s + 1)) (head s) = Some (last (head s # lo))"
proof -
  let ?h = "nodes s" and ?c = "nat (maxSearchLevel s + 1)"
  have lk: "\<forall>j. linked_at (height ?h) (lvl ?h j) j ((head s # lo) @ hi)"
    and hh: "height ?h (head s) = MaxLevel" and c: "maxLevel s \<le> MaxLevel"
    and hts: "\<forall>b\<in>set lo. 1 \<le> height ?h b"
    using list_inv by (auto simp: list_inv_def)
  have cc: "?c \<le> MaxLevel" "?c = 0 \<longleftrightarrow> maxLevel s = 0"
    using c by (auto simp: maxSearchLevel_def Let_def MaxLevel_def MaxSearchLevel_def)
  have "\<exists>n'. descend ?h K ?c (head s) = Some n' \<and>
           (0 < ?c \<longrightarrow> (\<exists>d. path_at (height ?h) 0 (head s # lo) n' d)) \<and> (?c = 0 \<longrightarrow> n' = head s)"
    using lo hi hh cc
    by (intro descend_correct [OF lk, of "[]" "head s" lo]) auto
  then obtain n' where
    run: "descend ?h K ?c (head s) = Some n'"
    and fin: "0 < ?c \<longrightarrow> (\<exists>d. path_at (height ?h) 0 (head s # lo) n' d)" "?c = 0 \<longrightarrow> n' = head s"
    by (elim exE conjE) (rule that; assumption)
  have "n' = last (head s # lo)"
  proof (cases "?c = 0")
    case True
    with inv_empty_at_zero [OF list_inv] cc have "lo = []" by simp
    with True fin(2) show ?thesis by simp
  next
    case False
    with fin(1) obtain d where pa: "path_at (height ?h) 0 (head s # lo) n' d" by auto
    from level0_pred [OF pa hts] show ?thesis by simp
  qed
  with run show ?thesis by simp
qed

subsection \<open>Sorted keys around a search key\<close>

lemma sorted_split:
  assumes "sorted_wrt less_key (map f ns)"
  shows "\<exists>lo hi. ns = lo @ hi \<and> (\<forall>b\<in>set lo. less_key (f b) K) \<and>
           (\<forall>b\<in>set hi. \<not> less_key (f b) K)"
proof -
  let ?P = "\<lambda>b. less_key (f b) K"
  let ?lo = "takeWhile ?P ns" and ?hi = "dropWhile ?P ns"
  have "\<forall>b\<in>set ?hi. \<not> ?P b"
  proof (cases ?hi)
    case Nil
    show ?thesis unfolding Nil by simp
  next
    case (Cons x rest)
    have nx: "\<not> ?P x" using Cons hd_dropWhile [of ?P ns] by (metis list.distinct(1) list.sel(1))
    have "sorted_wrt less_key (map f (?lo @ ?hi))" using assms by simp
    then have "sorted_wrt less_key (map f (x # rest))"
      unfolding Cons map_append sorted_wrt_append by simp
    then have "\<forall>y\<in>set rest. less_key (f x) (f y)" by simp
    with nx have "\<forall>y\<in>set rest. \<not> ?P y" using less_key_trans by blast
    with nx Cons show ?thesis by simp
  qed
  moreover have "\<forall>b\<in>set ?lo. ?P b" by (auto dest: set_takeWhileD)
  moreover have "ns = ?lo @ ?hi" by simp
  ultimately show ?thesis by blast
qed

lemma hi_greater:
  assumes "sorted_wrt less_key (map f hi)" and "\<forall>b\<in>set hi. \<not> less_key (f b) K"
    and "hi = [] \<or> \<not> equalInterval (f (hd hi)) K"
  shows "\<forall>b\<in>set hi. less_key K (f b)"
proof (cases hi)
  case Nil
  then show ?thesis by simp
next
  case (Cons x rest)
  with assms have "\<not> less_key (f x) K" "\<not> equalInterval (f x) K" by auto
  with less_key_total [of "f x" K] have kx: "less_key K (f x)" by blast
  from assms(1) Cons have "\<forall>y\<in>set rest. less_key (f x) (f y)" by simp
  with kx have "\<forall>y\<in>set rest. less_key K (f y)" using less_key_trans by blast
  with kx Cons show ?thesis by simp
qed

lemma path_at_cong:
  "\<forall>b\<in>set front. ht' b = ht b \<Longrightarrow> path_at ht' i front p d = path_at ht i front p d"
  unfolding path_at_def by (intro ex_cong1 iffI; clarsimp)

subsection \<open>Insert on an interval that is stored\<close>

lemma height_key_update [simp]: "height (h(a := (h a)\<lparr>intervalKey := K\<rparr>)) = height h"
  by (auto simp: height_def fun_eq_iff)

lemma lvl_key_update [simp]: "lvl (h(a := (h a)\<lparr>intervalKey := K\<rparr>)) = lvl h"
  by (auto simp: lvl_def fun_eq_iff)

lemma key_of_key_update:
  "key_of (h(a := (h a)\<lparr>intervalKey := K\<rparr>)) = (key_of h)(a := K)"
  by (auto simp: key_of_def fun_eq_iff)

lemma inv_update_key:
  assumes list_inv: "list_inv s ns" and a: "a \<in> set ns" and eq: "equalInterval (key_of (nodes s) a) K"
  shows "list_inv (s\<lparr>nodes := (nodes s)(a := (nodes s a)\<lparr>intervalKey := K\<rparr>)\<rparr>) ns"
proof -
  let ?f = "key_of (nodes s)" and ?f' = "(key_of (nodes s))(a := K)"
  have "sorted_wrt (\<lambda>x y. less_key (?f x) (?f y)) ns"
    using list_inv by (simp add: list_inv_def sorted_wrt_map)
  then have "sorted_wrt (\<lambda>x y. less_key (?f' x) (?f' y)) ns"
  proof (rule sorted_wrt_mono_rel [rotated])
    fix x y assume "less_key (?f x) (?f y)"
    then show "less_key (?f' x) (?f' y)"
      using less_key_equal_left [OF eq] less_key_equal_right [OF eq] by auto
  qed
  then have "sorted_wrt less_key (map ?f' ns)" by (simp add: sorted_wrt_map)
  moreover have "a \<noteq> head s" using list_inv a by (auto simp: list_inv_def)
  ultimately show ?thesis
    using list_inv by (simp add: list_inv_def key_of_key_update)
qed

lemma Insert_update:
  assumes list_inv: "list_inv s (lo @ b # hi)"
    and lo: "\<forall>x\<in>set lo. less_key (key_of (nodes s) x) K"
    and hi: "\<forall>x\<in>set (b # hi). \<not> less_key (key_of (nodes s) x) K"
    and eq: "equalInterval (key_of (nodes s) b) K"
  shows "Insert K s = Some (Some (intervalKey (nodes s b)),
           s\<lparr>nodes := (nodes s)(b := (nodes s b)\<lparr>intervalKey := K\<rparr>)\<rparr>)"
proof -
  from search_insert [OF list_inv lo hi] obtain dist np where
    run: "insert_search (nodes s) K (maxLevel s) (head s)
             (replicate MaxLevel 0) (replicate MaxLevel None) =
             Some (last (head s # lo), dist, np)"
    by blast
  from inv_pred_next [OF list_inv] have
    l0: "level_at (nodes s) (last (head s # lo)) 0 = Some (lvl (nodes s) 0 (last (head s # lo)))"
    and nx: "next_node (lvl (nodes s) 0 (last (head s # lo))) = Some b"
    by simp_all
  show ?thesis
    using eq by (simp add: Insert_def run l0 nx key_of_def del: last.simps)
qed

subsection \<open>Insert of a new interval\<close>

lemma heap_node_update:
  assumes "h2 = h(n := N)" and "length (levels N) = r" and "intervalKey N = K"
  shows "height h2 = (height h)(n := r)" and "key_of h2 = (key_of h)(n := K)"
    and "\<And>j a. a \<noteq> n \<Longrightarrow> lvl h2 j a = lvl h j a"
  using assms by (auto simp: height_def key_of_def lvl_def fun_eq_iff)

lemma Insert_new:
  assumes list_inv: "list_inv s (lo @ hi)"
    and lo: "\<forall>x\<in>set lo. less_key (key_of (nodes s) x) K"
    and hi: "\<forall>x\<in>set hi. \<not> less_key (key_of (nodes s) x) K"
    and neq: "hi = [] \<or> \<not> equalInterval (key_of (nodes s) (hd hi)) K"
  shows "\<exists>n s'. Insert K s = Some (None, s') \<and> list_inv s' (lo @ n # hi) \<and>
           n \<notin> set (head s # lo @ hi) \<and> key_of (nodes s') n = K \<and>
           (\<forall>a\<in>set (lo @ hi). key_of (nodes s') a = key_of (nodes s) a) \<and>
           head s' = head s"
proof -
  let ?h = "nodes s" and ?m0 = "maxLevel s" and ?hd = "head s"
  let ?xs = "?hd # lo @ hi"
  have dist_xs: "distinct ?xs" and hh: "height ?h ?hd = MaxLevel"
    and hk: "key_of ?h ?hd = zeroKey" and m0: "?m0 \<le> MaxLevel"
    and hts: "\<forall>a\<in>set (lo @ hi). 1 \<le> height ?h a \<and> height ?h a \<le> ?m0"
    and lk: "\<forall>j. linked_at (height ?h) (lvl ?h j) j ?xs"
    and srt: "sorted_wrt less_key (map (key_of ?h) (lo @ hi))"
    and len: "length_sl s = int (length (lo @ hi))"
    and pl: "distinct (pool s)" "set (pool s) \<inter> set ?xs = {}"
      "\<forall>a\<in>set (pool s) \<union> set ?xs. a < fresh s"
    using list_inv unfolding list_inv_def by simp_all
  from search_insert [OF list_inv lo hi] obtain dist np where
    run: "insert_search ?h K ?m0 ?hd (replicate MaxLevel 0) (replicate MaxLevel None) =
             Some (last (?hd # lo), dist, np)"
    and lens: "length dist = MaxLevel" "length np = MaxLevel"
    and paths: "\<forall>j<?m0. \<exists>p dj. np ! j = Some p \<and> dist ! j = int dj \<and>
               path_at (height ?h) j (?hd # lo) p dj"
    and dist_hi: "\<forall>j\<ge>?m0. j < MaxLevel \<longrightarrow> dist ! j = 0"
    and dist0: "dist ! 0 = int (length lo)"
    by blast
  from inv_pred_next [OF list_inv] have
    l0: "level_at ?h (last (?hd # lo)) 0 = Some (lvl ?h 0 (last (?hd # lo)))"
    and nx: "next_node (lvl ?h 0 (last (?hd # lo))) = (case hi of [] \<Rightarrow> None | b # _ \<Rightarrow> Some b)"
    by simp_all
  have nomatch: "\<not> (case next_node (lvl ?h 0 (last (?hd # lo))) of None \<Rightarrow> False
                     | Some xn \<Rightarrow> equalInterval (intervalKey (?h xn)) K)"
    unfolding nx using neq by (cases hi) (simp_all add: key_of_def)
  obtain r s1 where rl: "randomLevel s = (r, s1)" by (cases "randomLevel s")
  from randomLevel_props [OF rl] obtain g where
    r: "1 \<le> r" "r \<le> MaxLevel" and s1: "s1 = s\<lparr>PCG := g\<rparr>"
    by blast
  obtain n s2 where nn: "newNode r K s1 = (n, s2)" by (cases "newNode r K s1")
  have "n \<notin> set ?xs \<and> n \<notin> set (pool s2) \<and> distinct (pool s2) \<and> set (pool s2) \<subseteq> set (pool s1) \<and>
         (\<forall>a\<in>set (pool s2) \<union> set ?xs \<union> {n}. a < fresh s2) \<and>
         (\<exists>N. nodes s2 = (nodes s1)(n := N) \<and> length (levels N) = r \<and> intervalKey N = K) \<and>
         head s2 = head s1 \<and> maxLevel s2 = maxLevel s1 \<and> length_sl s2 = length_sl s1 \<and>
         PCG s2 = PCG s1"
    using pl by (intro newNode_props [OF nn]) (simp_all add: s1)
  then obtain N where
    n: "n \<notin> set ?xs" and pool2: "n \<notin> set (pool s2)" "distinct (pool s2)"
      "set (pool s2) \<subseteq> set (pool s)" "\<forall>a\<in>set (pool s2) \<union> set ?xs \<union> {n}. a < fresh s2"
    and h2: "nodes s2 = ?h(n := N)" and N: "length (levels N) = r" "intervalKey N = K"
    and same2: "head s2 = ?hd" "maxLevel s2 = ?m0" "length_sl s2 = length_sl s"
    by (auto simp: s1)
  let ?h2 = "nodes s2"
  note upd = heap_node_update [OF h2 N]
  have ht2: "\<forall>a\<in>set ?xs. height ?h2 a = height ?h a" and htn: "height ?h2 n = r"
    using n by (auto simp: upd(1))
  have key2: "\<forall>a\<in>set ?xs. key_of ?h2 a = key_of ?h a" and keyn: "key_of ?h2 n = K"
    using n by (auto simp: upd(2))
  have lv2: "\<forall>j. \<forall>a\<in>set ?xs. lvl ?h2 j a = lvl ?h j a"
  proof (intro allI ballI)
    fix j a assume "a \<in> set ?xs"
    with n have "a \<noteq> n" by blast
    then show "lvl ?h2 j a = lvl ?h j a" by (rule upd(3))
  qed
  have old_linked: "\<forall>j. linked_at (height ?h2) (lvl ?h2 j) j ?xs"
  proof
    fix j
    have "\<forall>b\<in>set ?xs. height ?h2 b = height ?h b \<and> lvl ?h2 j b = lvl ?h j b"
      using ht2 lv2 by blast
    from linked_at_cong [OF this] lk show "linked_at (height ?h2) (lvl ?h2 j) j ?xs" by blast
  qed
  have paths2: "\<forall>j<?m0. \<exists>p dj. np ! j = Some p \<and> dist ! j = int dj \<and>
               path_at (height ?h2) j (?hd # lo) p dj"
  proof -
    have "\<forall>b\<in>set (?hd # lo). height ?h2 b = height ?h b" using ht2 by simp
    from path_at_cong [OF this] paths show ?thesis by simp
  qed
  have low2: "\<forall>b\<in>set (lo @ hi). height ?h2 b \<le> ?m0" using ht2 hts by simp
  have hth2: "height ?h2 ?hd = MaxLevel" using ht2 hh by simp
  have cur: "s2 = s2\<lparr>maxLevel := max ?m0 0, nodes := ?h2\<rparr>" using same2 by simp
  have "\<exists>h3. insert_link (max ?m0 r) 0 n r dist np s2 =
            Some (s2\<lparr>maxLevel := max ?m0 r, nodes := h3\<rparr>) \<and>
           height h3 = height ?h2 \<and> key_of h3 = key_of ?h2 \<and>
           (\<forall>j. linked_at (height ?h2) (lvl h3 j) j (?hd # lo @ n # hi))"
    using dist_xs n same2(1) hth2 low2 htn r(2) m0 old_linked paths2 dist_hi dist0 cur lens(2)
    by (intro insert_link_loop [where ?h2.0 = ?h2 and h = ?h2 and nodePath = np and ?m0.0 = ?m0])
       simp_all
  then obtain h3 where
    link: "insert_link (max ?m0 r) 0 n r dist np s2 =
            Some (s2\<lparr>maxLevel := max ?m0 r, nodes := h3\<rparr>)"
    and h3: "height h3 = height ?h2" "key_of h3 = key_of ?h2"
    and lk3: "\<forall>j. linked_at (height ?h2) (lvl h3 j) j (?hd # lo @ n # hi)"
    by blast
  let ?s' = "s2\<lparr>maxLevel := max ?m0 r, length_sl := length_sl s2 + 1, nodes := h3\<rparr>"
  have res: "Insert K s = Some (None, ?s')"
    using nomatch
    by (simp add: Insert_def run l0 rl nn same2 link del: last.simps)
  have gt: "\<forall>b\<in>set hi. less_key K (key_of ?h b)"
  proof -
    have "sorted_wrt less_key (map (key_of ?h) hi)"
      using srt by (simp add: sorted_wrt_append)
    from hi_greater [OF this hi neq] show ?thesis .
  qed
  have srt': "sorted_wrt less_key (map (key_of h3) (lo @ n # hi))"
  proof -
    have e: "map (key_of h3) (lo @ n # hi) = map (key_of ?h) lo @ K # map (key_of ?h) hi"
      using key2 keyn by (simp add: h3)
    show ?thesis
      unfolding e using srt lo gt by (auto simp: sorted_wrt_append)
  qed
  have hts': "\<forall>a\<in>set (lo @ n # hi). 1 \<le> height h3 a \<and> height h3 a \<le> max ?m0 r"
  proof
    fix a assume "a \<in> set (lo @ n # hi)"
    then consider "a = n" | "a \<in> set (lo @ hi)" by auto
    then show "1 \<le> height h3 a \<and> height h3 a \<le> max ?m0 r"
    proof cases
      case 1
      with htn r(1) show ?thesis by (simp add: h3)
    next
      case 2
      with hts have "1 \<le> height ?h a \<and> height ?h a \<le> ?m0" by blast
      moreover from 2 ht2 have "height ?h2 a = height ?h a" by simp
      ultimately show ?thesis by (auto simp: h3 le_max_iff_disj)
    qed
  qed
  have pool': "set (pool s2) \<inter> set (?hd # lo @ n # hi) = {}"
    using pool2(1,3) pl(2) by auto
  have fresh': "\<forall>a\<in>set (pool s2) \<union> set (?hd # lo @ n # hi). a < fresh s2"
    using pool2(4) by auto
  have "list_inv ?s' (lo @ n # hi)"
    unfolding list_inv_def
    using dist_xs n hth2 hk key2 m0 r(2) hts' lk3 srt' len same2 pool2(2) pool' fresh'
    by (simp add: h3)
  moreover have "\<forall>a\<in>set (lo @ hi). key_of (nodes ?s') a = key_of ?h a"
    using key2 by (simp add: h3)
  ultimately show ?thesis
    using res n keyn same2(1) by (intro exI [of _ n] exI [of _ ?s']) (simp add: h3)
qed

subsection \<open>Unlinking one level\<close>

lemma unlink_level_step:
  assumes old: "linked_at (height h) (lvl h i) i (pre @ p # mid @ t # hi)"
    and p: "i < height h p" and mid: "\<forall>b\<in>set mid. height h b \<le> i"
    and dist: "distinct (pre @ p # mid @ t # hi)"
    and hd: "height h (head s) = MaxLevel" and ml: "ml \<le> MaxLevel"
  shows "\<exists>h' ml'. unlink_level i t p (s\<lparr>maxLevel := ml, nodes := h\<rparr>) =
             Some (s\<lparr>maxLevel := ml', nodes := h'\<rparr>) \<and>
           height h' = height h \<and> key_of h' = key_of h \<and>
           (\<forall>j. j \<noteq> i \<longrightarrow> lvl h' j = lvl h j) \<and>
           linked_at (height h) (lvl h' i) i (pre @ p # mid @ hi) \<and>
           (ml' = ml \<or> ml' = i \<and> i < ml \<and> i < MaxLevel \<and> next_node (lvl h' i (head s)) = None)"
proof -
  have tp: "t \<noteq> p" using dist by auto
  have nx: "next_node (lvl h i p) = Some t \<longleftrightarrow> i < height h t"
    by (rule linked_at_pred_next [OF old p mid dist])
  show ?thesis
  proof (cases "i < height h t")
    case True
    let ?h1 = "with_next h p i (next_node (lvl h i t))"
    let ?lp = "(lvl h i p)\<lparr>next_node := next_node (lvl h i t),
                 span := span (lvl h i p) + (span (lvl h i t) - 1)\<rparr>"
    let ?h2 = "with_span ?h1 p i (span (lvl h i p) + (span (lvl h i t) - 1))"
    have lv: "lvl ?h2 i = (lvl h i)(p := ?lp)"
      using p by (auto simp: lvl_with_span lvl_with_next fun_eq_iff)
    have other: "\<forall>j. j \<noteq> i \<longrightarrow> lvl ?h2 j = lvl h j"
      by (auto simp: lvl_with_span lvl_with_next fun_eq_iff)
    have lk: "linked_at (height h) (lvl ?h2 i) i (pre @ p # mid @ hi)"
      by (rule linked_at_delete_unlink [OF old p mid dist True lv]) simp_all
    let ?ml' = "if (i < ml \<and> 1 < ml) \<and> next_node (lvl ?h2 i (head s)) = None then i else ml"
    have run: "unlink_level i t p (s\<lparr>maxLevel := ml, nodes := h\<rparr>) =
        Some (s\<lparr>maxLevel := ?ml', nodes := ?h2\<rparr>)"
    proof (cases "i < ml \<and> 1 < ml")
      case True
      then have "i < height ?h2 (head s)" using hd ml by simp
      then show ?thesis
        using True p \<open>i < height h t\<close> nx tp
        by (simp add: unlink_level_def height_def [symmetric] lvl_with_next)
    next
      case False
      then show ?thesis
        using p \<open>i < height h t\<close> nx tp
        by (auto simp: unlink_level_def height_def [symmetric] lvl_with_next)
    qed
    have "?ml' = ml \<or> ?ml' = i \<and> i < ml \<and> i < MaxLevel \<and> next_node (lvl ?h2 i (head s)) = None"
      using ml by auto
    with run lv other lk show ?thesis
      by (intro exI [of _ ?h2] exI [of _ ?ml']) simp
  next
    case False
    then have ti: "height h t \<le> i" by simp
    let ?lp = "(lvl h i p)\<lparr>span := span (lvl h i p) - 1\<rparr>"
    let ?h1 = "with_span h p i (span (lvl h i p) - 1)"
    have lv: "lvl ?h1 i = (lvl h i)(p := ?lp)"
      using p by (auto simp: lvl_with_span fun_eq_iff)
    have other: "\<forall>j. j \<noteq> i \<longrightarrow> lvl ?h1 j = lvl h j"
      by (auto simp: lvl_with_span fun_eq_iff)
    have lk: "linked_at (height h) (lvl ?h1 i) i (pre @ p # mid @ hi)"
      by (rule linked_at_delete_skip [OF old p mid dist ti lv]) simp_all
    have run: "unlink_level i t p (s\<lparr>maxLevel := ml, nodes := h\<rparr>) =
        Some (s\<lparr>maxLevel := ml, nodes := ?h1\<rparr>)"
      using p False by (simp add: unlink_level_def height_def [symmetric])
    with lv other lk show ?thesis
      by (intro exI [of _ ?h1] exI [of _ ml]) simp
  qed
qed

lemma delete_unlink_loop:
  assumes dist_xs: "distinct (hd0 # lo @ t # hi)"
    and hd0: "hd0 = head s"
    and hth: "height h0 hd0 = MaxLevel"
    and low: "\<forall>b\<in>set (lo @ t # hi). height h0 b \<le> m0" and m0: "m0 \<le> MaxLevel"
    and old_linked: "\<forall>j. linked_at (height h0) (lvl h0 j) j (hd0 # lo @ t # hi)"
    and paths: "\<forall>j<m0. \<exists>p dj. np ! j = Some p \<and> path_at (height h0) j (hd0 # lo) p dj"
    and np: "length np = MaxLevel"
    and hh: "height h = height h0" "key_of h = key_of h0"
    and lower: "\<forall>j<i. linked_at (height h0) (lvl h j) j (hd0 # lo @ hi)"
    and todo: "\<forall>j\<ge>i. lvl h j = lvl h0 j"
    and mlc: "ml \<le> m0" "\<forall>b\<in>set (lo @ hi). height h0 b \<le> ml"
    and bound: "i + c = m0"
  shows "\<exists>h' ml'. delete_unlink c i t np (s\<lparr>maxLevel := ml, nodes := h\<rparr>) =
             Some (s\<lparr>maxLevel := ml', nodes := h'\<rparr>) \<and>
           height h' = height h0 \<and> key_of h' = key_of h0 \<and>
           (\<forall>j. linked_at (height h0) (lvl h' j) j (hd0 # lo @ hi)) \<and>
           ml' \<le> m0 \<and> (\<forall>b\<in>set (lo @ hi). height h0 b \<le> ml')"
  using hh lower todo mlc bound
proof (induction c arbitrary: i h ml)
  case 0
  let ?ht = "height h0"
  have i: "i = m0" using "0.prems" by simp
  have "linked_at ?ht (lvl h j) j (hd0 # lo @ hi)" for j
  proof (cases "j < i")
    case True
    with "0.prems" show ?thesis by simp
  next
    case False
    then have ji: "m0 \<le> j" using i by simp
    then have e: "lvl h j = lvl h0 j" using "0.prems"(4) i by simp
    have l1: "\<forall>b\<in>set (lo @ t # hi). ?ht b \<le> j"
    proof
      fix b assume "b \<in> set (lo @ t # hi)"
      with low have "?ht b \<le> m0" by blast
      with ji show "?ht b \<le> j" by simp
    qed
    then have l2: "\<forall>b\<in>set (lo @ hi). ?ht b \<le> j" by simp
    have "linked_at ?ht (lvl h0 j) j (hd0 # lo @ t # hi)" using old_linked by simp
    then show ?thesis
      unfolding e linked_at_top [OF l1] linked_at_top [OF l2] .
  qed
  then have "\<forall>j. linked_at ?ht (lvl h j) j (hd0 # lo @ hi)" by blast
  moreover have "delete_unlink 0 i t np (s\<lparr>maxLevel := ml, nodes := h\<rparr>) =
      Some (s\<lparr>maxLevel := ml, nodes := h\<rparr>)" by simp
  ultimately show ?case using "0.prems"(1,2,5,6) by blast
next
  case (Suc c)
  let ?ht = "height h0"
  have im: "i < m0" using Suc.prems by simp
  then have i32: "i < MaxLevel" using m0 by simp
  from paths im obtain p dj where
    pj: "np ! i = Some p" and pa: "path_at ?ht i (hd0 # lo) p dj"
    by blast
  from pa obtain pre mid where
    e: "hd0 # lo = pre @ p # mid" and ip: "i < ?ht p" and mid: "\<forall>b\<in>set mid. ?ht b \<le> i"
    unfolding path_at_def by blast
  have xs: "hd0 # lo @ t # hi = pre @ p # mid @ t # hi" "hd0 # lo @ hi = pre @ p # mid @ hi"
    using e by (metis append_Cons append_assoc)+
  have li: "lvl h i = lvl h0 i" using Suc.prems(4) by simp
  have old: "linked_at (height h) (lvl h i) i (pre @ p # mid @ t # hi)"
    using old_linked unfolding xs li Suc.prems(1) by simp
  have "\<exists>h' ml'. unlink_level i t p (s\<lparr>maxLevel := ml, nodes := h\<rparr>) =
             Some (s\<lparr>maxLevel := ml', nodes := h'\<rparr>) \<and>
           height h' = height h \<and> key_of h' = key_of h \<and>
           (\<forall>j. j \<noteq> i \<longrightarrow> lvl h' j = lvl h j) \<and>
           linked_at (height h) (lvl h' i) i (pre @ p # mid @ hi) \<and>
           (ml' = ml \<or> ml' = i \<and> i < ml \<and> i < MaxLevel \<and> next_node (lvl h' i (head s)) = None)"
    using ip mid dist_xs hth hd0 Suc.prems(5) m0 unfolding xs
    by (intro unlink_level_step [OF old]) (simp_all add: Suc.prems(1))
  then obtain h' ml' where
    step: "unlink_level i t p (s\<lparr>maxLevel := ml, nodes := h\<rparr>) =
             Some (s\<lparr>maxLevel := ml', nodes := h'\<rparr>)"
    and h'0: "height h' = height h" "key_of h' = key_of h"
    and h'3: "\<forall>j. j \<noteq> i \<longrightarrow> lvl h' j = lvl h j"
    and lk'0: "linked_at (height h) (lvl h' i) i (pre @ p # mid @ hi)"
    and mlx0: "ml' = ml \<or> ml' = i \<and> i < ml \<and> i < MaxLevel \<and> next_node (lvl h' i (head s)) = None"
    by (elim exE conjE) (rule that; assumption)
  have h': "height h' = ?ht" "key_of h' = key_of h0" "\<forall>j. j \<noteq> i \<longrightarrow> lvl h' j = lvl h j"
    using h'0 h'3 Suc.prems(1,2) by simp_all
  have lk': "linked_at ?ht (lvl h' i) i (hd0 # lo @ hi)"
    using lk'0 unfolding xs Suc.prems(1) .
  have mlx: "ml' = ml \<or> ml' = i \<and> i < ml \<and> i < MaxLevel \<and> next_node (lvl h' i hd0) = None"
    using mlx0 unfolding hd0 .
  have run: "delete_unlink (Suc c) i t np (s\<lparr>maxLevel := ml, nodes := h\<rparr>) =
      delete_unlink c (Suc i) t np (s\<lparr>maxLevel := ml', nodes := h'\<rparr>)"
    using pj np i32 step by (simp add: nth_opt_def)
  have lower': "\<forall>j<Suc i. linked_at ?ht (lvl h' j) j (hd0 # lo @ hi)"
    using Suc.prems(3) lk' h'(3) by (auto simp: less_Suc_eq)
  have todo': "\<forall>j\<ge>Suc i. lvl h' j = lvl h0 j"
    using Suc.prems(4) h'(3) by auto
  have ml1: "ml' \<le> m0" using mlx Suc.prems(5) im by auto
  have ml2: "\<forall>b\<in>set (lo @ hi). ?ht b \<le> ml'"
  proof (cases "ml' = ml")
    case True
    with Suc.prems(6) show ?thesis by simp
  next
    case False
    with mlx have mi: "ml' = i" and nn: "next_node (lvl h' i hd0) = None" by auto
    from lk' i32 hth have "link_ok (lvl h' i hd0) (succ_at ?ht i (lo @ hi))" by simp
    with nn have "succ_at ?ht i (lo @ hi) = None"
      by (cases "succ_at ?ht i (lo @ hi)") (auto simp: link_ok_def)
    then show ?thesis unfolding mi succ_at_None .
  qed
  have b: "Suc i + c = m0" using Suc.prems(7) by simp
  from Suc.IH [OF h'(1,2) lower' todo' ml1 ml2 b] run show ?case by simp
qed

subsection \<open>Delete\<close>

lemma Delete_absent:
  assumes list_inv: "list_inv s (lo @ hi)"
    and lo: "\<forall>x\<in>set lo. less_key (key_of (nodes s) x) K"
    and hi: "\<forall>x\<in>set hi. \<not> less_key (key_of (nodes s) x) K"
    and neq: "hi = [] \<or> \<not> equalInterval (key_of (nodes s) (hd hi)) K"
  shows "Delete K s = Some (None, s)"
proof -
  from search_delete [OF list_inv lo hi] obtain np where
    run: "delete_search (nodes s) K (maxLevel s) (head s) (replicate MaxLevel None) =
             Some (last (head s # lo), np)"
    by blast
  from inv_pred_next [OF list_inv] have
    l0: "level_at (nodes s) (last (head s # lo)) 0 = Some (lvl (nodes s) 0 (last (head s # lo)))"
    and nx: "next_node (lvl (nodes s) 0 (last (head s # lo))) =
               (case hi of [] \<Rightarrow> None | b # _ \<Rightarrow> Some b)"
    by simp_all
  show ?thesis
    using neq
    by (cases hi) (simp_all add: Delete_def run l0 nx key_of_def del: last.simps)
qed

lemma heap_reset:
  assumes "a \<noteq> t"
  shows "height (h(t := reset (h t))) a = height h a"
    and "key_of (h(t := reset (h t))) a = key_of h a"
    and "lvl (h(t := reset (h t))) j a = lvl h j a"
  using assms by (simp_all add: height_def key_of_def lvl_def)

lemma Delete_present:
  assumes list_inv: "list_inv s (lo @ t # hi)"
    and lo: "\<forall>x\<in>set lo. less_key (key_of (nodes s) x) K"
    and hi: "\<forall>x\<in>set (t # hi). \<not> less_key (key_of (nodes s) x) K"
    and eq: "equalInterval (key_of (nodes s) t) K"
  shows "\<exists>s'. Delete K s = Some (Some (key_of (nodes s) t), s') \<and> list_inv s' (lo @ hi) \<and>
           (\<forall>a\<in>set (lo @ hi). key_of (nodes s') a = key_of (nodes s) a) \<and>
           head s' = head s"
proof -
  let ?h = "nodes s" and ?m0 = "maxLevel s" and ?hd = "head s"
  let ?xs = "?hd # lo @ t # hi"
  have dist_xs: "distinct ?xs" and hh: "height ?h ?hd = MaxLevel"
    and hk: "key_of ?h ?hd = zeroKey" and m0: "?m0 \<le> MaxLevel"
    and hts: "\<forall>a\<in>set (lo @ t # hi). 1 \<le> height ?h a \<and> height ?h a \<le> ?m0"
    and lk: "\<forall>j. linked_at (height ?h) (lvl ?h j) j ?xs"
    and srt: "sorted_wrt less_key (map (key_of ?h) (lo @ t # hi))"
    and len: "length_sl s = int (length (lo @ t # hi))"
    and pl: "distinct (pool s)" "set (pool s) \<inter> set ?xs = {}"
      "\<forall>a\<in>set (pool s) \<union> set ?xs. a < fresh s"
    using list_inv unfolding list_inv_def by simp_all
  from search_delete [OF list_inv lo hi] obtain np where
    run: "delete_search ?h K ?m0 ?hd (replicate MaxLevel None) = Some (last (?hd # lo), np)"
    and lens: "length np = MaxLevel"
    and paths: "\<forall>j<?m0. \<exists>p dj. np ! j = Some p \<and> path_at (height ?h) j (?hd # lo) p dj"
    by blast
  from inv_pred_next [OF list_inv] have
    l0: "level_at ?h (last (?hd # lo)) 0 = Some (lvl ?h 0 (last (?hd # lo)))"
    and nx: "next_node (lvl ?h 0 (last (?hd # lo))) = Some t"
    by simp_all
  have low: "\<forall>b\<in>set (lo @ t # hi). height ?h b \<le> ?m0" using hts by blast
  have low': "\<forall>b\<in>set (lo @ hi). height ?h b \<le> ?m0" using hts by simp
  have "\<exists>h' ml'. delete_unlink ?m0 0 t np (s\<lparr>maxLevel := ?m0, nodes := ?h\<rparr>) =
             Some (s\<lparr>maxLevel := ml', nodes := h'\<rparr>) \<and>
           height h' = height ?h \<and> key_of h' = key_of ?h \<and>
           (\<forall>j. linked_at (height ?h) (lvl h' j) j (?hd # lo @ hi)) \<and>
           ml' \<le> ?m0 \<and> (\<forall>b\<in>set (lo @ hi). height ?h b \<le> ml')"
    using dist_xs hh low m0 lk paths lens low'
    by (intro delete_unlink_loop [where ?h0.0 = ?h and ?m0.0 = ?m0]) simp_all
  then obtain h' ml' where
    loop: "delete_unlink ?m0 0 t np s = Some (s\<lparr>maxLevel := ml', nodes := h'\<rparr>)"
    and h': "height h' = height ?h" "key_of h' = key_of ?h"
    and lk': "\<forall>j. linked_at (height ?h) (lvl h' j) j (?hd # lo @ hi)"
    and ml': "ml' \<le> ?m0" "\<forall>b\<in>set (lo @ hi). height ?h b \<le> ml'"
    by auto
  let ?h'' = "h'(t := reset (h' t))"
  let ?s' = "s\<lparr>maxLevel := ml', length_sl := length_sl s - 1, pool := t # pool s, nodes := ?h''\<rparr>"
  have kt: "intervalKey (h' t) = key_of ?h t" using h'(2) by (simp add: key_of_def fun_eq_iff)
  have res: "Delete K s = Some (Some (key_of ?h t), ?s')"
    using eq
    by (simp add: Delete_def run l0 nx loop pool_put_def h'(2) key_of_def [symmetric]
          del: last.simps)
  have nt: "\<forall>a\<in>set (?hd # lo @ hi). a \<noteq> t" using dist_xs by auto
  have same: "\<forall>a\<in>set (?hd # lo @ hi). height ?h'' a = height ?h a \<and> key_of ?h'' a = key_of ?h a"
    using nt heap_reset(1,2) [of _ t h'] h' by simp
  have lk'': "\<forall>j. linked_at (height ?h'') (lvl ?h'' j) j (?hd # lo @ hi)"
  proof
    fix j
    have "\<forall>b\<in>set (?hd # lo @ hi). height ?h'' b = height ?h b \<and> lvl ?h'' j b = lvl h' j b"
      using nt heap_reset(1,3) [of _ t h'] h' by simp
    from linked_at_cong [OF this] lk' show "linked_at (height ?h'') (lvl ?h'' j) j (?hd # lo @ hi)"
      by blast
  qed
  have hts': "\<forall>a\<in>set (lo @ hi). 1 \<le> height ?h'' a \<and> height ?h'' a \<le> ml'"
  proof
    fix a assume a: "a \<in> set (lo @ hi)"
    with hts have "1 \<le> height ?h a" by simp
    moreover from a ml' have "height ?h a \<le> ml'" by blast
    moreover from a same have "height ?h'' a = height ?h a" by simp
    ultimately show "1 \<le> height ?h'' a \<and> height ?h'' a \<le> ml'" by simp
  qed
  have srt': "sorted_wrt less_key (map (key_of ?h'') (lo @ hi))"
  proof -
    have e: "map (key_of ?h'') (lo @ hi) = map (key_of ?h) (lo @ hi)"
      using same by simp
    show ?thesis
      unfolding e using srt by (auto simp: sorted_wrt_append)
  qed
  have pool': "distinct (t # pool s)" "set (t # pool s) \<inter> set (?hd # lo @ hi) = {}"
    "\<forall>a\<in>set (t # pool s) \<union> set (?hd # lo @ hi). a < fresh s"
    using pl dist_xs by auto
  have "list_inv ?s' (lo @ hi)"
    unfolding list_inv_def
    using dist_xs same hh hk ml'(1) m0 hts' lk'' srt' len pool'
    by simp
  moreover have "\<forall>a\<in>set (lo @ hi). key_of (nodes ?s') a = key_of ?h a"
    using same by simp
  ultimately show ?thesis
    using res by (intro exI [of _ ?s']) simp
qed

subsection \<open>Every reachable list has the structure\<close>

lemma inv_New: "list_inv (New g) []"
  by (simp add: New_def newNode_def pool_get_def Let_def list_inv_def height_def key_of_def lvl_def
      emptyNode_def zeroLevel_def link_ok_def MaxLevel_def)

section \<open>Construction of interval keys\<close>

lemma NewIntervalKey_invalid:
  "start < 0 \<or> end < 0 \<or> start > end \<Longrightarrow> \<exists>msg. NewIntervalKey start end key = Panic msg"
  by (simp add: NewIntervalKey_def)

lemma NewIntervalKey_valid:
  "0 \<le> start \<Longrightarrow> start \<le> end \<Longrightarrow>
   NewIntervalKey start end key = Return \<lparr>Start = start, End = end, Key = key\<rparr>"
  by (simp add: NewIntervalKey_def)

text \<open>
  C8, as the code has it: construction with a negative bound or with \<open>Start > End\<close>
  panics (the call does not return a value, and no error value exists in the signature);
  construction with \<open>0 \<le> Start \<le> End\<close> returns a key with the given bounds and payload.
\<close>

theorem C8_NewIntervalKey_panics_or_returns:
  "(start < 0 \<or> end < 0 \<or> start > end \<longrightarrow>
      (\<exists>msg. NewIntervalKey start end key = Panic msg)) \<and>
   (0 \<le> start \<and> start \<le> end \<longrightarrow>
      (\<exists>k. NewIntervalKey start end key = Return k \<and>
           Start k = start \<and> End k = end \<and> Key k = key))"
  using NewIntervalKey_invalid [of start "end" key] NewIntervalKey_valid [of start "end" key]
  by auto

theorem C8_witness:
  "(\<exists>msg. NewIntervalKey 10 5 ''key'' = Panic msg) \<and>
   (\<exists>k. NewIntervalKey 5 10 ''key'' = Return k \<and> Start k = 5 \<and> End k = 10 \<and> Key k = ''key'')"
  using C8_NewIntervalKey_panics_or_returns [of 10 5 "''key''"]
        C8_NewIntervalKey_panics_or_returns [of 5 10 "''key''"]
  by simp

text \<open>
  C8 as stated fails: the test input \<^verbatim>\<open>NewIntervalKey(-5, 10, "key")\<close> panics instead of
  returning a typed error.
\<close>

theorem C8_counterexample:
  "NewIntervalKey (-5) 10 ''key'' =
     Panic ''interval Start and End must be a positive number and Start must be < End''"
  by (simp add: NewIntervalKey_def)

end
